theory Spec2Isabelle
  imports Main
begin

section \<open>Data model of \<open>bounds_check_indices_cpu\<close>\<close>

text \<open>
  The routine of \<^verbatim>\<open>embedding_bounds_check_host_cpu.cpp\<close> receives three integer
  tensors, a mode and a one-element warning tensor. Tensors are lists here. The elements of
  \<open>indices\<close> and \<open>offsets\<close> have the dispatched type \<open>index_t\<close> (32 or 64 bits), those of
  \<open>rows_per_table\<close> and \<open>warning\<close> are 64 bits wide. They are embedded as \<open>int\<close>: the routine
  compares them, takes minima and maxima, and subtracts \<open>indices_start\<close> from \<open>indices_end\<close>
  only once both lie between 0 and \<open>num_indices\<close>, so no operation on them can wrap. The
  counters \<open>t\<close>, \<open>b\<close>, \<open>l\<close> start at 0 and are only incremented below a bound that is at most
  the extent of a tensor; they are \<open>nat\<close>, and the bounds \<open>T\<close>, \<open>B\<close>, \<open>L\<close>, which the code
  computes as signed integers, are \<open>int\<close>. Tensor extents are taken to be below \<open>2^31\<close>: the
  source keeps \<open>T\<close> and \<open>B\<close> in \<open>int32_t\<close> variables and counts with \<open>int\<close>, and what it
  does once these overflow is outside this model. The warning counter is incremented at
  most once per segment and once per element in one call, so it cannot wrap either.
\<close>

text \<open>
  Modelled from the spec: the enumeration \<open>BoundsCheckMode\<close> is declared in
  \<^verbatim>\<open>fbgemm_gpu/embedding_common.h\<close>, which is not among the sources. The specification
  names its three policies, and the routine compares with exactly these three. It receives
  the policy as an integer and casts it; the encoding belongs to the same header.
\<close>

datatype BoundsCheckMode = FATAL | WARNING | IGNORE

text \<open>The two messages the routine sends to \<open>LOG(ERROR)\<close>, with the values they print.\<close>

datatype diagnostic =
    SegmentMessage nat nat int int int
    \<comment> \<open>batch \<open>b\<close>, table \<open>t\<close>, \<open>indices_start\<close>, \<open>indices_end\<close>, \<open>num_indices\<close>\<close>
  | IndexMessage nat nat nat int int
    \<comment> \<open>batch \<open>b\<close>, table \<open>t\<close>, bag element \<open>l\<close>, \<open>idx\<close>, \<open>num_rows\<close>\<close>

text \<open>
  The ways a call can end without returning: a \<open>TORCH_CHECK\<close> that throws, the division
  by \<open>T\<close> when \<open>T\<close> is zero, and an accessor used outside its tensor (the accessors do not
  check; the model makes such an access an outcome of its own so that its absence is a
  theorem).
\<close>

datatype error = TorchCheckFailed | DivideByZero | OutOfBoundsAccess

record tensors =
  offsets :: "int list"
  indices :: "int list"
  warning :: int
  logged :: "diagnostic list"

section \<open>Accessors, the atomic counter, the loop\<close>

definition acc_read :: "int list \<Rightarrow> int \<Rightarrow> error + int" where
  "acc_read xs p =
     (if 0 \<le> p \<and> p < int (length xs) then Inr (xs ! nat p) else Inl OutOfBoundsAccess)"

definition acc_write :: "int list \<Rightarrow> int \<Rightarrow> int \<Rightarrow> error + int list" where
  "acc_write xs p v =
     (if 0 \<le> p \<and> p < int (length xs) then Inr (xs[nat p := v]) else Inl OutOfBoundsAccess)"

text \<open>\<open>__sync_fetch_and_add(&warning_acc[0], 1)\<close>: the old value and the updated state.\<close>

definition sync_fetch_and_add :: "tensors \<Rightarrow> int \<times> tensors" where
  "sync_fetch_and_add s = (warning s, s\<lparr>warning := warning s + 1\<rparr>)"

text \<open>
  \<open>for (auto i = 0; i < n; ++i) body\<close>, started at counter \<open>i\<close>. A body that throws ends
  the loop with its error.
\<close>

function for_loop :: "nat \<Rightarrow> int \<Rightarrow> (nat \<Rightarrow> 's \<Rightarrow> error + 's) \<Rightarrow> 's \<Rightarrow> error + 's" where
  "for_loop i n body s =
     (if int i < n
      then (case body i s of Inl e \<Rightarrow> Inl e | Inr s' \<Rightarrow> for_loop (Suc i) n body s')
      else Inr s)"
  by pat_completeness auto
termination
  by (relation "measure (\<lambda>(i, n, body, s). nat (n - int i))") auto

declare for_loop.simps [simp del]

text \<open>C++ division of signed integers truncates towards zero.\<close>

definition cpp_div :: "int \<Rightarrow> int \<Rightarrow> int" where
  "cpp_div a b = sgn a * sgn b * (\<bar>a\<bar> div \<bar>b\<bar>)"

section \<open>The routine\<close>

text \<open>Lines 77 to 99: one element of a segment.\<close>

definition check_index ::
  "BoundsCheckMode \<Rightarrow> int \<Rightarrow> nat \<Rightarrow> nat \<Rightarrow> int \<Rightarrow> nat \<Rightarrow> tensors \<Rightarrow> error + tensors" where
  "check_index bounds_check_mode num_rows t b indices_start l s =
     (case acc_read (indices s) (indices_start + int l) of
        Inl e \<Rightarrow> Inl e
      | Inr idx \<Rightarrow>
          if idx = - 1 then Inr s
          else (case bounds_check_mode of
            FATAL \<Rightarrow>
              if \<not> idx \<ge> 0 then Inl TorchCheckFailed
              else if \<not> idx < num_rows then Inl TorchCheckFailed
              else Inr s
          | WARNING \<Rightarrow>
              if idx < 0 \<or> idx \<ge> num_rows then
                (case sync_fetch_and_add s of (old, s1) \<Rightarrow>
                   let s2 = (if old = 0
                             then s1\<lparr>logged := logged s1 @ [IndexMessage b t l idx num_rows]\<rparr>
                             else s1)
                   in (case acc_write (indices s2) (indices_start + int l) 0 of
                         Inl e \<Rightarrow> Inl e
                       | Inr xs \<Rightarrow> Inr (s2\<lparr>indices := xs\<rparr>)))
              else Inr s
          | IGNORE \<Rightarrow>
              if idx < 0 \<or> idx \<ge> num_rows then
                (case acc_write (indices s) (indices_start + int l) 0 of
                   Inl e \<Rightarrow> Inl e
                 | Inr xs \<Rightarrow> Inr (s\<lparr>indices := xs\<rparr>))
              else Inr s))"

text \<open>Lines 57 to 63 and 66 to 72: clamp both ends of the segment and write them back.\<close>

definition clamp_segment ::
  "int \<Rightarrow> int \<Rightarrow> int \<Rightarrow> int \<Rightarrow> tensors \<Rightarrow> error + (int \<times> int \<times> tensors)" where
  "clamp_segment num_indices p indices_start indices_end s =
     (let indices_start' = max 0 (min indices_start num_indices);
          indices_end' = max indices_start' (min indices_end num_indices)
      in (case acc_write (offsets s) p indices_start' of
            Inl e \<Rightarrow> Inl e
          | Inr os \<Rightarrow>
             (case acc_write os (p + 1) indices_end' of
                Inl e \<Rightarrow> Inl e
              | Inr os' \<Rightarrow> Inr (indices_start', indices_end', s\<lparr>offsets := os'\<rparr>))))"

text \<open>
  Lines 42 to 73: the check of the segment's two offsets, at position \<open>p = t * B + b\<close>.
  The result is the segment the element loop will run over, and the state.
\<close>

definition check_segment ::
  "BoundsCheckMode \<Rightarrow> int \<Rightarrow> nat \<Rightarrow> nat \<Rightarrow> int \<Rightarrow> int \<Rightarrow> int \<Rightarrow> tensors
     \<Rightarrow> error + (int \<times> int \<times> tensors)" where
  "check_segment bounds_check_mode num_indices t b p indices_start indices_end s =
     (case bounds_check_mode of
        FATAL \<Rightarrow>
          if \<not> indices_start \<ge> 0 then Inl TorchCheckFailed
          else if \<not> indices_start \<le> indices_end then Inl TorchCheckFailed
          else if \<not> indices_end \<le> num_indices then Inl TorchCheckFailed
          else Inr (indices_start, indices_end, s)
      | WARNING \<Rightarrow>
          if indices_start < 0 \<or> indices_start > indices_end \<or> indices_end > num_indices then
            (case sync_fetch_and_add s of (old, s1) \<Rightarrow>
               let s2 = (if old = 0
                         then s1\<lparr>logged := logged s1 @
                                  [SegmentMessage b t indices_start indices_end num_indices]\<rparr>
                         else s1)
               in clamp_segment num_indices p indices_start indices_end s2)
          else Inr (indices_start, indices_end, s)
      | IGNORE \<Rightarrow> clamp_segment num_indices p indices_start indices_end s)"

text \<open>Lines 40 to 100: the body of the loop over \<open>b\<close>.\<close>

definition segment_body ::
  "BoundsCheckMode \<Rightarrow> int \<Rightarrow> int \<Rightarrow> int \<Rightarrow> nat \<Rightarrow> nat \<Rightarrow> tensors \<Rightarrow> error + tensors" where
  "segment_body bounds_check_mode num_indices num_rows B t b s =
     (let p = int t * B + int b in
      case acc_read (offsets s) p of
        Inl e \<Rightarrow> Inl e
      | Inr indices_start \<Rightarrow>
         (case acc_read (offsets s) (p + 1) of
            Inl e \<Rightarrow> Inl e
          | Inr indices_end \<Rightarrow>
             (case check_segment bounds_check_mode num_indices t b p indices_start indices_end s of
                Inl e \<Rightarrow> Inl e
              | Inr (indices_start', indices_end', s') \<Rightarrow>
                  let L = indices_end' - indices_start' in
                  for_loop 0 L (check_index bounds_check_mode num_rows t b indices_start') s')))"

text \<open>Lines 38 to 101: the body of the loop over \<open>t\<close>.\<close>

definition table_body ::
  "BoundsCheckMode \<Rightarrow> int list \<Rightarrow> int \<Rightarrow> int \<Rightarrow> nat \<Rightarrow> tensors \<Rightarrow> error + tensors" where
  "table_body bounds_check_mode rows_per_table num_indices B t s =
     (case acc_read rows_per_table (int t) of
        Inl e \<Rightarrow> Inl e
      | Inr num_rows \<Rightarrow>
          for_loop 0 B (segment_body bounds_check_mode num_indices num_rows B t) s)"

text \<open>
  The whole call. \<open>warning.zero_()\<close> comes first, then \<open>T\<close> and \<open>B\<close>; the division by
  \<open>T = 0\<close> does not return. A call that returns gives the tensors as it leaves them,
  together with what it logged.
\<close>

definition bounds_check_indices_cpu ::
  "int list \<Rightarrow> int list \<Rightarrow> int list \<Rightarrow> BoundsCheckMode \<Rightarrow> int \<Rightarrow> error + tensors" where
  "bounds_check_indices_cpu rows_per_table indices0 offsets0 bounds_check_mode warning0 =
     (let s = \<lparr>offsets = offsets0, indices = indices0,
                warning = (if bounds_check_mode = WARNING then 0 else warning0),
                logged = []\<rparr>;
          T = int (length rows_per_table)
      in if T = 0 then Inl DivideByZero
         else
           let B = cpp_div (int (length offsets0) - 1) T;
               num_indices = int (length indices0)
           in for_loop 0 T (table_body bounds_check_mode rows_per_table num_indices B) s)"

section \<open>Notions used to state the properties\<close>

subsection \<open>Violations, as the routine tests them\<close>

text \<open>
  The condition under which lines 86 and 96 overwrite an id, and under which lines 83
  and 84 throw: the id is not the sentinel and is negative or not below \<open>num_rows\<close>.
\<close>

definition bad_index :: "int \<Rightarrow> int \<Rightarrow> bool" where
  "bad_index num_rows idx \<longleftrightarrow> idx \<noteq> - 1 \<and> (idx < 0 \<or> num_rows \<le> idx)"

text \<open>The condition of lines 47 and 48, the negation of the three checks of lines 43 to 45.\<close>

definition segment_invalid :: "int \<Rightarrow> int \<Rightarrow> int \<Rightarrow> bool" where
  "segment_invalid num_indices st en \<longleftrightarrow> st < 0 \<or> st > en \<or> en > num_indices"

text \<open>The number of bad ids at the positions \<open>a\<close> up to \<open>e\<close>, \<open>e\<close> excluded.\<close>

definition count_bad :: "int \<Rightarrow> int list \<Rightarrow> nat \<Rightarrow> nat \<Rightarrow> nat" where
  "count_bad num_rows xs a e = length (filter (\<lambda>i. bad_index num_rows (xs ! i)) [a..<e])"

text \<open>The indices with the bad ids at the positions \<open>a\<close> up to \<open>e\<close> replaced by 0.\<close>

definition sanitize :: "int \<Rightarrow> nat \<Rightarrow> nat \<Rightarrow> int list \<Rightarrow> int list" where
  "sanitize num_rows a e xs =
     map (\<lambda>i. if a \<le> i \<and> i < e \<and> bad_index num_rows (xs ! i) then 0 else xs ! i)
       [0..<length xs]"

text \<open>The two values of lines 57 to 61.\<close>

definition clamp_start :: "int \<Rightarrow> int \<Rightarrow> int" where
  "clamp_start n st = max 0 (min st n)"

definition clamp_end :: "int \<Rightarrow> int \<Rightarrow> int \<Rightarrow> int" where
  "clamp_end n st en = max (clamp_start n st) (min en n)"

text \<open>
  What holds of the counter and the log during a call with the policy WARNING: a message
  has been logged exactly if the counter has left 0.
\<close>

definition log_ok :: "tensors \<Rightarrow> bool" where
  "log_ok s \<longleftrightarrow> 0 \<le> warning s \<and> length (logged s) = (if warning s = 0 then 0 else 1)"

subsection \<open>The tensors after the first \<open>k\<close> segments\<close>

text \<open>
  The loop over \<open>t\<close> and, inside it, the loop over \<open>b\<close> visit the positions
  \<open>k = t * B + b\<close> of the offsets in increasing order. Under WARNING and IGNORE the
  tensors after \<open>k\<close> segments are these lists, and the counter under WARNING is
  \<open>detected\<close>; the lemmas \<open>run_nonfatal\<close> prove it. Segment \<open>k\<close> belongs to table
  \<open>k div B\<close>.
\<close>

fun offsets_after :: "int \<Rightarrow> int list \<Rightarrow> nat \<Rightarrow> int list" where
  "offsets_after n os 0 = os"
| "offsets_after n os (Suc k) =
     (let cur = offsets_after n os k
      in cur[k := clamp_start n (cur ! k), Suc k := clamp_end n (cur ! k) (cur ! Suc k)])"

fun indices_after :: "int list \<Rightarrow> nat \<Rightarrow> int list \<Rightarrow> int list \<Rightarrow> nat \<Rightarrow> int list" where
  "indices_after rows Bn os xs 0 = xs"
| "indices_after rows Bn os xs (Suc k) =
     (let n = int (length xs); cur = offsets_after n os k
      in sanitize (rows ! (k div Bn)) (nat (clamp_start n (cur ! k)))
           (nat (clamp_end n (cur ! k) (cur ! Suc k))) (indices_after rows Bn os xs k))"

fun detected :: "int list \<Rightarrow> nat \<Rightarrow> int list \<Rightarrow> int list \<Rightarrow> nat \<Rightarrow> nat" where
  "detected rows Bn os xs 0 = 0"
| "detected rows Bn os xs (Suc k) =
     (let n = int (length xs); cur = offsets_after n os k
      in detected rows Bn os xs k
         + (if segment_invalid n (cur ! k) (cur ! Suc k) then 1 else 0)
         + count_bad (rows ! (k div Bn)) (indices_after rows Bn os xs k)
             (nat (clamp_start n (cur ! k))) (nat (clamp_end n (cur ! k) (cur ! Suc k))))"

declare offsets_after.simps(2) [simp del] indices_after.simps(2) [simp del]
  detected.simps(2) [simp del]

text \<open>The first \<open>k\<close> segments of the input are in range and hold no bad id.\<close>

definition clean :: "int list \<Rightarrow> nat \<Rightarrow> int list \<Rightarrow> int list \<Rightarrow> nat \<Rightarrow> bool" where
  "clean rows Bn os xs k \<longleftrightarrow>
     (\<forall>j<k. \<not> segment_invalid (int (length xs)) (os ! j) (os ! Suc j) \<and>
            count_bad (rows ! (j div Bn)) xs (nat (os ! j)) (nat (os ! Suc j)) = 0)"

subsection \<open>The invariant and the violations, in the words of the specification\<close>

text \<open>
  A segment from \<open>st\<close> to \<open>en\<close> of a table with \<open>num_rows\<close> rows is safe when
  \<open>0 \<le> st \<le> en \<le> len(Indices)\<close> and each of its entries other than the sentinel lies
  in \<open>[0, num_rows)\<close>. The safety invariant asks this of the segment of every table \<open>t\<close> and
  batch element \<open>b\<close>, which lies between \<open>Offsets[t*B+b]\<close> and \<open>Offsets[t*B+b+1]\<close>.
\<close>

definition segment_safe :: "int \<Rightarrow> int list \<Rightarrow> int \<Rightarrow> int \<Rightarrow> bool" where
  "segment_safe num_rows xs st en \<longleftrightarrow>
     0 \<le> st \<and> st \<le> en \<and> en \<le> int (length xs) \<and>
     (\<forall>i\<in>{0..<length xs}. st \<le> int i \<and> int i < en \<and> xs ! i \<noteq> - 1 \<longrightarrow>
        0 \<le> xs ! i \<and> xs ! i < num_rows)"

definition safety_invariant :: "int list \<Rightarrow> nat \<Rightarrow> int list \<Rightarrow> int list \<Rightarrow> bool" where
  "safety_invariant rows B os xs \<longleftrightarrow>
     (\<forall>t\<in>{0..<length rows}. \<forall>b\<in>{0..<B}.
        segment_safe (rows ! t) xs (os ! (t * B + b)) (os ! (t * B + b + 1)))"

text \<open>
  What the repair establishes: the same, except that in a table without rows the entries
  other than the sentinel are 0.
\<close>

definition segment_repaired :: "int \<Rightarrow> int list \<Rightarrow> int \<Rightarrow> int \<Rightarrow> bool" where
  "segment_repaired num_rows xs st en \<longleftrightarrow>
     0 \<le> st \<and> st \<le> en \<and> en \<le> int (length xs) \<and>
     (\<forall>i\<in>{0..<length xs}. st \<le> int i \<and> int i < en \<and> xs ! i \<noteq> - 1 \<longrightarrow>
        (if 0 < num_rows then 0 \<le> xs ! i \<and> xs ! i < num_rows else xs ! i = 0))"

definition repaired_invariant :: "int list \<Rightarrow> nat \<Rightarrow> int list \<Rightarrow> int list \<Rightarrow> bool" where
  "repaired_invariant rows B os xs \<longleftrightarrow>
     (\<forall>t\<in>{0..<length rows}. \<forall>b\<in>{0..<B}.
        segment_repaired (rows ! t) xs (os ! (t * B + b)) (os ! (t * B + b + 1)))"

text \<open>
  The two kinds of violation: a segment with \<open>start < 0\<close>, \<open>start > end\<close> or
  \<open>end > len(Indices)\<close>, and an id other than the sentinel that is negative or at least
  \<open>num_rows\<close>, inside a segment that is in range.
\<close>

definition segment_violated :: "int \<Rightarrow> int list \<Rightarrow> int \<Rightarrow> int \<Rightarrow> bool" where
  "segment_violated num_rows xs st en \<longleftrightarrow>
     (st < 0 \<or> st > en \<or> en > int (length xs)) \<or>
     (0 \<le> st \<and> st \<le> en \<and> en \<le> int (length xs) \<and>
      (\<exists>i\<in>{0..<length xs}. st \<le> int i \<and> int i < en \<and> xs ! i \<noteq> - 1 \<and>
         (xs ! i < 0 \<or> xs ! i \<ge> num_rows)))"

definition has_violation :: "int list \<Rightarrow> nat \<Rightarrow> int list \<Rightarrow> int list \<Rightarrow> bool" where
  "has_violation rows B os xs \<longleftrightarrow>
     (\<exists>t\<in>{0..<length rows}. \<exists>b\<in>{0..<B}.
        segment_violated (rows ! t) xs (os ! (t * B + b)) (os ! (t * B + b + 1)))"

text \<open>Position \<open>i\<close> of the indices lies in the segment of some table and batch element.\<close>

definition in_some_segment :: "nat \<Rightarrow> nat \<Rightarrow> int list \<Rightarrow> nat \<Rightarrow> bool" where
  "in_some_segment T B os i \<longleftrightarrow>
     (\<exists>t\<in>{0..<T}. \<exists>b\<in>{0..<B}. os ! (t * B + b) \<le> int i \<and> int i < os ! (t * B + b + 1))"




section \<open>Lemmas\<close>

subsection \<open>The loop\<close>

text \<open>
  An invariant \<open>I\<close> that every round of the body keeps holds when the loop ends, with the
  counter at its bound; \<open>Q\<close> holds of the error if the body throws.
\<close>

lemma for_loop_rule:
  assumes "I i s"
    and "\<And>j s. I j s \<Longrightarrow> i \<le> j \<Longrightarrow> int j < n \<Longrightarrow>
            (case body j s of Inl e \<Rightarrow> Q e | Inr s' \<Rightarrow> I (Suc j) s')"
  shows "case for_loop i n body s of Inl e \<Rightarrow> Q e | Inr s' \<Rightarrow> I (max i (nat n)) s'"
  using assms
proof (induction i n body s rule: for_loop.induct)
  case (1 i n body s)
  show ?case
  proof (cases "int i < n")
    case False
    then have "max i (nat n) = i" by simp
    with False "1.prems"(1) show ?thesis by (simp add: for_loop.simps)
  next
    case True
    note lt = this
    from "1.prems"(2) [OF "1.prems"(1) le_refl lt]
    have b: "case body i s of Inl e \<Rightarrow> Q e | Inr s' \<Rightarrow> I (Suc i) s'" .
    show ?thesis
    proof (cases "body i s")
      case (Inl e)
      with b lt show ?thesis by (simp add: for_loop.simps)
    next
      case (Inr s1)
      with b have i1: "I (Suc i) s1" by simp
      have m: "max (Suc i) (nat n) = max i (nat n)" using lt by simp
      have "case for_loop (Suc i) n body s1 of Inl e \<Rightarrow> Q e
            | Inr s' \<Rightarrow> I (max (Suc i) (nat n)) s'"
      proof (rule "1.IH" [OF lt Inr i1])
        fix j s assume "I j s" "Suc i \<le> j" "int j < n"
        then show "case body j s of Inl e \<Rightarrow> Q e | Inr s' \<Rightarrow> I (Suc j) s'"
          using "1.prems"(2) [of j s] by simp
      qed
      then show ?thesis unfolding m using lt Inr by (simp add: for_loop.simps [of i])
    qed
  qed
qed

lemma for_loop_rule0:
  assumes "I 0 s"
    and "\<And>j s. I j s \<Longrightarrow> int j < n \<Longrightarrow>
            (case body j s of Inl e \<Rightarrow> Q e | Inr s' \<Rightarrow> I (Suc j) s')"
  shows "case for_loop 0 n body s of Inl e \<Rightarrow> Q e | Inr s' \<Rightarrow> I (nat n) s'"
  using for_loop_rule [where I = I and i = 0 and s = s and n = n and body = body and Q = Q] assms
  by (simp split: sum.splits)

subsection \<open>One element, and the loop over a segment\<close>

lemma length_sanitize [simp]: "length (sanitize nr a e xs) = length xs"
  by (simp add: sanitize_def)

lemma nth_sanitize:
  "i < length xs \<Longrightarrow>
   sanitize nr a e xs ! i = (if a \<le> i \<and> i < e \<and> bad_index nr (xs ! i) then 0 else xs ! i)"
  by (simp add: sanitize_def)

lemma sanitize_empty [simp]: "e \<le> a \<Longrightarrow> sanitize nr a e xs = xs"
  by (rule nth_equalityI) (auto simp: nth_sanitize)

lemma count_bad_empty [simp]: "e \<le> a \<Longrightarrow> count_bad nr xs a e = 0"
  by (simp add: count_bad_def)

lemma count_bad_Suc:
  "a \<le> e \<Longrightarrow> count_bad nr xs a (Suc e) = count_bad nr xs a e + (if bad_index nr (xs ! e) then 1 else 0)"
  by (simp add: count_bad_def)

lemma sanitize_Suc:
  "a \<le> e \<Longrightarrow> e < length xs \<Longrightarrow>
   sanitize nr a (Suc e) xs =
     (if bad_index nr (xs ! e) then (sanitize nr a e xs)[e := 0] else sanitize nr a e xs)"
  by (rule nth_equalityI) (auto simp: nth_sanitize nth_list_update less_Suc_eq)

lemma check_index_WARNING:
  assumes "an + l < length (indices s)"
  shows "check_index WARNING nr t b (int an) l s =
     Inr (if bad_index nr (indices s ! (an + l))
          then s\<lparr>warning := warning s + 1,
                 logged := logged s @
                   (if warning s = 0 then [IndexMessage b t l (indices s ! (an + l)) nr] else []),
                 indices := (indices s)[an + l := 0]\<rparr>
          else s)"
proof -
  have "nat (int an + int l) = an + l" by simp
  with assms show ?thesis
    by (simp add: check_index_def acc_read_def acc_write_def sync_fetch_and_add_def
        bad_index_def Let_def)
qed

lemma check_index_IGNORE:
  assumes "an + l < length (indices s)"
  shows "check_index IGNORE nr t b (int an) l s =
     Inr (if bad_index nr (indices s ! (an + l))
          then s\<lparr>indices := (indices s)[an + l := 0]\<rparr>
          else s)"
proof -
  have "nat (int an + int l) = an + l" by simp
  with assms show ?thesis
    by (simp add: check_index_def acc_read_def acc_write_def bad_index_def)
qed

lemma check_index_FATAL:
  assumes "an + l < length (indices s)"
  shows "check_index FATAL nr t b (int an) l s =
     (if bad_index nr (indices s ! (an + l)) then Inl TorchCheckFailed else Inr s)"
proof -
  have "nat (int an + int l) = an + l" by simp
  with assms show ?thesis
    by (auto simp add: check_index_def acc_read_def bad_index_def)
qed

lemma element_loop_WARNING:
  assumes "an \<le> en" "en \<le> length (indices s)"
  shows "\<exists>s'. for_loop 0 (int en - int an) (check_index WARNING nr t b (int an)) s = Inr s' \<and>
           offsets s' = offsets s \<and>
           indices s' = sanitize nr an en (indices s) \<and>
           warning s' = warning s + int (count_bad nr (indices s) an en) \<and>
           (log_ok s \<longrightarrow> log_ok s')"
proof -
  define xs where "xs = indices s"
  define I where "I = (\<lambda>l s'. offsets s' = offsets s \<and>
           indices s' = sanitize nr an (an + l) xs \<and>
           warning s' = warning s + int (count_bad nr xs an (an + l)) \<and>
           (log_ok s \<longrightarrow> log_ok s'))"
  have init: "I 0 s" by (simp add: I_def xs_def)
  have step: "case check_index WARNING nr t b (int an) j s1 of
                Inl e \<Rightarrow> False | Inr s' \<Rightarrow> I (Suc j) s'"
    if inv: "I j s1" and lt: "int j < int en - int an" for j s1
  proof -
    from lt assms have r: "an + j < length xs" "an + j < en" by (simp_all add: xs_def)
    from inv have len: "length (indices s1) = length xs" by (simp add: I_def)
    from inv r have cur: "indices s1 ! (an + j) = xs ! (an + j)"
      by (simp add: I_def nth_sanitize)
    have le: "an \<le> an + j" by simp
    show ?thesis
      using inv r cur
      by (simp add: check_index_WARNING len I_def sanitize_Suc [OF le] count_bad_Suc [OF le]
          log_ok_def)
  qed
  have "case for_loop 0 (int en - int an) (check_index WARNING nr t b (int an)) s of
          Inl e \<Rightarrow> False | Inr s' \<Rightarrow> I (nat (int en - int an)) s'"
    by (rule for_loop_rule0 [where I = I, OF init step])
  moreover have "an + nat (int en - int an) = en" using assms by simp
  ultimately show ?thesis
    by (auto simp: I_def xs_def split: sum.splits)
qed

lemma element_loop_IGNORE:
  assumes "an \<le> en" "en \<le> length (indices s)"
  shows "for_loop 0 (int en - int an) (check_index IGNORE nr t b (int an)) s =
           Inr (s\<lparr>indices := sanitize nr an en (indices s)\<rparr>)"
proof -
  define xs where "xs = indices s"
  define I where "I = (\<lambda>l s'. s' = s\<lparr>indices := sanitize nr an (an + l) xs\<rparr>)"
  have init: "I 0 s" by (simp add: I_def xs_def)
  have step: "case check_index IGNORE nr t b (int an) j s1 of
                Inl e \<Rightarrow> False | Inr s' \<Rightarrow> I (Suc j) s'"
    if inv: "I j s1" and lt: "int j < int en - int an" for j s1
  proof -
    from lt assms have r: "an + j < length xs" "an + j < en" by (simp_all add: xs_def)
    from inv have len: "length (indices s1) = length xs" by (simp add: I_def)
    from inv r have cur: "indices s1 ! (an + j) = xs ! (an + j)"
      by (simp add: I_def nth_sanitize)
    have le: "an \<le> an + j" by simp
    show ?thesis
      using inv r cur
      by (simp add: check_index_IGNORE len I_def sanitize_Suc [OF le])
  qed
  have "case for_loop 0 (int en - int an) (check_index IGNORE nr t b (int an)) s of
          Inl e \<Rightarrow> False | Inr s' \<Rightarrow> I (nat (int en - int an)) s'"
    by (rule for_loop_rule0 [where I = I, OF init step])
  moreover have "an + nat (int en - int an) = en" using assms by simp
  ultimately show ?thesis
    by (auto simp: I_def xs_def split: sum.splits)
qed

lemma count_bad_pos:
  "a \<le> i \<Longrightarrow> i < e \<Longrightarrow> bad_index nr (xs ! i) \<Longrightarrow> 0 < count_bad nr xs a e"
  by (auto simp: count_bad_def filter_empty_conv)

lemma count_bad_zero_iff:
  "count_bad nr xs a e = 0 \<longleftrightarrow> (\<forall>i. a \<le> i \<and> i < e \<longrightarrow> \<not> bad_index nr (xs ! i))"
  by (auto simp: count_bad_def filter_empty_conv)

lemma element_loop_FATAL:
  assumes "an \<le> en" "en \<le> length (indices s)"
  shows "for_loop 0 (int en - int an) (check_index FATAL nr t b (int an)) s =
           (if count_bad nr (indices s) an en = 0 then Inr s else Inl TorchCheckFailed)"
proof -
  define xs where "xs = indices s"
  define I where "I = (\<lambda>l s'. s' = s \<and> count_bad nr xs an (an + l) = 0)"
  define Q where "Q = (\<lambda>e. e = TorchCheckFailed \<and> count_bad nr xs an en \<noteq> 0)"
  have init: "I 0 s" by (simp add: I_def xs_def)
  have step: "case check_index FATAL nr t b (int an) j s1 of
                Inl e \<Rightarrow> Q e | Inr s' \<Rightarrow> I (Suc j) s'"
    if inv: "I j s1" and lt: "int j < int en - int an" for j s1
  proof -
    from lt assms have r: "an + j < length xs" "an + j < en" by (simp_all add: xs_def)
    have le: "an \<le> an + j" by simp
    from inv have s1: "s1 = s" by (simp add: I_def)
    show ?thesis
    proof (cases "bad_index nr (xs ! (an + j))")
      case True
      with count_bad_pos [OF le r(2), of nr xs] have "count_bad nr xs an en \<noteq> 0" by simp
      with True r show ?thesis by (simp add: s1 check_index_FATAL xs_def Q_def)
    next
      case False
      with inv r show ?thesis
        by (simp add: s1 check_index_FATAL xs_def I_def count_bad_Suc [OF le])
    qed
  qed
  have "case for_loop 0 (int en - int an) (check_index FATAL nr t b (int an)) s of
          Inl e \<Rightarrow> Q e | Inr s' \<Rightarrow> I (nat (int en - int an)) s'"
    by (rule for_loop_rule0 [where I = I, OF init step])
  moreover have "an + nat (int en - int an) = en" using assms by simp
  ultimately show ?thesis
    by (auto simp: I_def Q_def xs_def split: sum.splits)
qed

subsection \<open>One segment\<close>

lemma clamp_bounds:
  "0 \<le> n \<Longrightarrow> 0 \<le> clamp_start n st \<and> clamp_start n st \<le> clamp_end n st en \<and> clamp_end n st en \<le> n"
  by (auto simp: clamp_start_def clamp_end_def)

lemma clamp_valid:
  "\<not> segment_invalid n st en \<Longrightarrow> clamp_start n st = st \<and> clamp_end n st en = en"
  by (auto simp: clamp_start_def clamp_end_def segment_invalid_def)

lemma clamp_segment_eq:
  assumes "Suc k < length (offsets s)"
  shows "clamp_segment n (int k) st en s =
     Inr (clamp_start n st, clamp_end n st en,
          s\<lparr>offsets := (offsets s)[k := clamp_start n st, Suc k := clamp_end n st en]\<rparr>)"
proof -
  have "nat (int k + 1) = Suc k" by simp
  with assms show ?thesis
    by (simp add: clamp_segment_def acc_write_def clamp_start_def clamp_end_def Let_def)
qed

lemma segment_body_IGNORE:
  assumes "Suc k < length (offsets s)" and "k = t * Bn + b"
    and "n = int (length (indices s))"
  shows "segment_body IGNORE n nr (int Bn) t b s =
     Inr (s\<lparr>offsets := (offsets s)[k := clamp_start n (offsets s ! k),
                 Suc k := clamp_end n (offsets s ! k) (offsets s ! Suc k)],
             indices := sanitize nr (nat (clamp_start n (offsets s ! k)))
                 (nat (clamp_end n (offsets s ! k) (offsets s ! Suc k))) (indices s)\<rparr>)"
proof -
  define st where "st = offsets s ! k"
  define en where "en = offsets s ! Suc k"
  define s1 where "s1 = s\<lparr>offsets := (offsets s)[k := clamp_start n st, Suc k := clamp_end n st en]\<rparr>"
  have p: "int t * int Bn + int b = int k" using assms(2) by simp
  have k1: "nat (int k + 1) = Suc k" by simp
  have n0: "0 \<le> n" using assms(3) by simp
  note cb = clamp_bounds [OF n0, of st en]
  define a where "a = nat (clamp_start n st)"
  define e where "e = nat (clamp_end n st en)"
  have ae: "a \<le> e" "e \<le> length (indices s1)" "int a = clamp_start n st"
    "int e = clamp_end n st en"
  proof -
    show "a \<le> e" unfolding a_def e_def using cb by linarith
    have "nat (clamp_end n st en) \<le> length (indices s)" using cb assms(3) by linarith
    then show "e \<le> length (indices s1)" by (simp add: e_def s1_def)
    show "int a = clamp_start n st" unfolding a_def using cb by simp
    show "int e = clamp_end n st en" unfolding e_def using cb by simp
  qed
  have "segment_body IGNORE n nr (int Bn) t b s =
      for_loop 0 (int e - int a) (check_index IGNORE nr t b (int a)) s1"
    using assms(1)
    by (simp add: segment_body_def p acc_read_def k1 check_segment_def clamp_segment_eq
        st_def [symmetric] en_def [symmetric] s1_def [symmetric] ae Let_def)
  also have "\<dots> = Inr (s1\<lparr>indices := sanitize nr a e (indices s1)\<rparr>)"
    by (rule element_loop_IGNORE [OF ae(1,2)])
  finally show ?thesis
    by (simp add: s1_def a_def e_def st_def en_def)
qed

lemma segment_body_WARNING:
  assumes "Suc k < length (offsets s)" and "k = t * Bn + b"
    and "n = int (length (indices s))"
  shows "\<exists>s'. segment_body WARNING n nr (int Bn) t b s = Inr s' \<and>
     offsets s' = (offsets s)[k := clamp_start n (offsets s ! k),
                 Suc k := clamp_end n (offsets s ! k) (offsets s ! Suc k)] \<and>
     indices s' = sanitize nr (nat (clamp_start n (offsets s ! k)))
                 (nat (clamp_end n (offsets s ! k) (offsets s ! Suc k))) (indices s) \<and>
     warning s' = warning s
        + (if segment_invalid n (offsets s ! k) (offsets s ! Suc k) then 1 else 0)
        + int (count_bad nr (indices s) (nat (clamp_start n (offsets s ! k)))
                 (nat (clamp_end n (offsets s ! k) (offsets s ! Suc k)))) \<and>
     (log_ok s \<longrightarrow> log_ok s')"
proof -
  define st where "st = offsets s ! k"
  define en where "en = offsets s ! Suc k"
  define s1 where "s1 =
     (if segment_invalid n st en
      then s\<lparr>warning := warning s + 1,
             logged := logged s @ (if warning s = 0 then [SegmentMessage b t st en n] else []),
             offsets := (offsets s)[k := clamp_start n st, Suc k := clamp_end n st en]\<rparr>
      else s)"
  have p: "int t * int Bn + int b = int k" using assms(2) by simp
  have k1: "nat (int k + 1) = Suc k" by simp
  have n0: "0 \<le> n" using assms(3) by simp
  note cb = clamp_bounds [OF n0, of st en]
  define a where "a = nat (clamp_start n st)"
  define e where "e = nat (clamp_end n st en)"
  have ae: "a \<le> e" "e \<le> length (indices s1)" "int a = clamp_start n st"
    "int e = clamp_end n st en"
  proof -
    show "a \<le> e" unfolding a_def e_def using cb by linarith
    have "nat (clamp_end n st en) \<le> length (indices s)" using cb assms(3) by linarith
    then show "e \<le> length (indices s1)" by (simp add: e_def s1_def)
    show "int a = clamp_start n st" unfolding a_def using cb by simp
    show "int e = clamp_end n st en" unfolding e_def using cb by simp
  qed
  have cs: "check_segment WARNING n t b (int k) st en s =
      Inr (clamp_start n st, clamp_end n st en, s1)"
  proof (cases "segment_invalid n st en")
    case True
    then have c: "st < 0 \<or> en < st \<or> n < en" by (simp add: segment_invalid_def)
    show ?thesis using assms(1) True c
      by (simp add: check_segment_def sync_fetch_and_add_def clamp_segment_eq s1_def Let_def)
  next
    case False
    then have c: "\<not> (st < 0 \<or> en < st \<or> n < en)" by (simp add: segment_invalid_def)
    show ?thesis using False c clamp_valid [OF False]
      by (simp add: check_segment_def s1_def)
  qed
  have body: "segment_body WARNING n nr (int Bn) t b s =
      for_loop 0 (int e - int a) (check_index WARNING nr t b (int a)) s1"
    using assms(1)
    by (simp add: segment_body_def p acc_read_def k1 cs
        st_def [symmetric] en_def [symmetric] ae Let_def)
  from element_loop_WARNING [OF ae(1,2), of nr t b]
  obtain s' where s': "for_loop 0 (int e - int a) (check_index WARNING nr t b (int a)) s1 = Inr s'"
    "offsets s' = offsets s1" "indices s' = sanitize nr a e (indices s1)"
    "warning s' = warning s1 + int (count_bad nr (indices s1) a e)"
    "log_ok s1 \<longrightarrow> log_ok s'"
    by blast
  have o1: "offsets s1 = (offsets s)[k := clamp_start n st, Suc k := clamp_end n st en]"
    using clamp_valid [of n st en] by (simp add: s1_def st_def en_def)
  have i1: "indices s1 = indices s" by (simp add: s1_def)
  have w1: "warning s1 = warning s + (if segment_invalid n st en then 1 else 0)"
    by (simp add: s1_def)
  have l1: "log_ok s \<longrightarrow> log_ok s1" by (simp add: s1_def log_ok_def)
  show ?thesis
    using body s' o1 i1 w1 l1
    by (simp add: a_def e_def st_def en_def)
qed

lemma segment_body_FATAL:
  assumes "Suc k < length (offsets s)" and "k = t * Bn + b"
    and "n = int (length (indices s))"
  shows "segment_body FATAL n nr (int Bn) t b s =
     (if segment_invalid n (offsets s ! k) (offsets s ! Suc k) \<or>
         count_bad nr (indices s) (nat (offsets s ! k)) (nat (offsets s ! Suc k)) \<noteq> 0
      then Inl TorchCheckFailed else Inr s)"
proof -
  define st where "st = offsets s ! k"
  define en where "en = offsets s ! Suc k"
  have p: "int t * int Bn + int b = int k" using assms(2) by simp
  have k1: "nat (int k + 1) = Suc k" by simp
  show ?thesis
  proof (cases "segment_invalid n st en")
    case True
    then have "check_segment FATAL n t b (int k) st en s = Inl TorchCheckFailed"
      by (auto simp: check_segment_def segment_invalid_def)
    with True assms(1) show ?thesis
      by (simp add: segment_body_def p acc_read_def k1 st_def [symmetric] en_def [symmetric])
  next
    case False
    then have c: "0 \<le> st" "st \<le> en" "en \<le> n" by (auto simp: segment_invalid_def)
    then have cs: "check_segment FATAL n t b (int k) st en s = Inr (st, en, s)"
      by (simp add: check_segment_def)
    define a where "a = nat st"
    define e where "e = nat en"
    have ae: "a \<le> e" "e \<le> length (indices s)" "int a = st" "int e = en"
      using c assms(3) by (simp_all add: a_def e_def)
    have "segment_body FATAL n nr (int Bn) t b s =
      for_loop 0 (int e - int a) (check_index FATAL nr t b (int a)) s"
      using assms(1)
      by (simp add: segment_body_def p acc_read_def k1 cs
          st_def [symmetric] en_def [symmetric] ae Let_def)
    also note element_loop_FATAL [OF ae(1,2)]
    finally show ?thesis using False
      by (simp add: a_def e_def st_def en_def)
  qed
qed

subsection \<open>The loop over the tables and the loop over the batch\<close>

lemmas offsets_after_Suc = offsets_after.simps(2)

lemmas indices_after_Suc = indices_after.simps(2)

lemmas detected_Suc = detected.simps(2)

lemma length_offsets_after [simp]: "length (offsets_after n os k) = length os"
  by (induction k) (simp_all add: Let_def offsets_after_Suc)

lemma length_indices_after [simp]: "length (indices_after rows Bn os xs k) = length xs"
  by (induction k) (simp_all add: Let_def indices_after_Suc)

lemma table_body_eq:
  "t < length rows \<Longrightarrow>
   table_body mode rows n B t s = for_loop 0 B (segment_body mode n (rows ! t) B t) s"
  by (simp add: table_body_def acc_read_def)

lemma call_rule:
  assumes init: "P 0 s"
    and step: "\<And>t b s. P (t * Bn + b) s \<Longrightarrow> t < length rows \<Longrightarrow> b < Bn \<Longrightarrow>
       (case segment_body mode n (rows ! t) (int Bn) t b s of
          Inl e \<Rightarrow> Q e | Inr s' \<Rightarrow> P (Suc (t * Bn + b)) s')"
  shows "case for_loop 0 (int (length rows)) (table_body mode rows n (int Bn)) s of
           Inl e \<Rightarrow> Q e | Inr s' \<Rightarrow> P (length rows * Bn) s'"
proof -
  define I where "I = (\<lambda>t s. P (t * Bn) s)"
  have i0: "I 0 s" using init by (simp add: I_def)
  have outer: "case table_body mode rows n (int Bn) t s1 of
                 Inl e \<Rightarrow> Q e | Inr s' \<Rightarrow> I (Suc t) s'"
    if inv: "I t s1" and lt: "int t < int (length rows)" for t s1
  proof -
    from lt have t: "t < length rows" by simp
    define J where "J = (\<lambda>b s. P (t * Bn + b) s)"
    have j0: "J 0 s1" using inv by (simp add: I_def J_def)
    have inner: "case segment_body mode n (rows ! t) (int Bn) t b s2 of
                   Inl e \<Rightarrow> Q e | Inr s' \<Rightarrow> J (Suc b) s'"
      if "J b s2" and "int b < int Bn" for b s2
      using step [of t b s2] that t by (simp add: J_def split: sum.splits)
    have "case for_loop 0 (int Bn) (segment_body mode n (rows ! t) (int Bn) t) s1 of
            Inl e \<Rightarrow> Q e | Inr s' \<Rightarrow> J (nat (int Bn)) s'"
      by (rule for_loop_rule0 [where I = J, OF j0 inner])
    moreover have "t * Bn + Bn = Suc t * Bn" by simp
    ultimately show ?thesis
      by (simp add: table_body_eq [OF t] J_def I_def add.commute split: sum.splits)
  qed
  have "case for_loop 0 (int (length rows)) (table_body mode rows n (int Bn)) s of
          Inl e \<Rightarrow> Q e | Inr s' \<Rightarrow> I (nat (int (length rows))) s'"
    by (rule for_loop_rule0 [where I = I, OF i0 outer])
  then show ?thesis by (simp add: I_def split: sum.splits)
qed

lemma flat_index:
  fixes t b T Bn :: nat
  assumes "t < T" "b < Bn"
  shows "t * Bn + b < T * Bn" "(t * Bn + b) div Bn = t"
proof -
  have "t * Bn + b < t * Bn + Bn" using assms by simp
  also have "\<dots> = Suc t * Bn" by simp
  also have "\<dots> \<le> T * Bn" using assms(1) mult_le_mono1 [of "Suc t" T Bn] by simp
  finally show "t * Bn + b < T * Bn" .
  show "(t * Bn + b) div Bn = t" using assms by simp
qed

lemma run_nonfatal:
  assumes "Bn = 0 \<or> length rows * Bn < length os"
  shows "\<exists>s'. for_loop 0 (int (length rows)) (table_body WARNING rows (int (length xs)) (int Bn))
             \<lparr>offsets = os, indices = xs, warning = 0, logged = []\<rparr> = Inr s' \<and>
           offsets s' = offsets_after (int (length xs)) os (length rows * Bn) \<and>
           indices s' = indices_after rows Bn os xs (length rows * Bn) \<and>
           warning s' = int (detected rows Bn os xs (length rows * Bn)) \<and>
           log_ok s'"
    and "for_loop 0 (int (length rows)) (table_body IGNORE rows (int (length xs)) (int Bn))
             \<lparr>offsets = os, indices = xs, warning = w, logged = []\<rparr> =
         Inr \<lparr>offsets = offsets_after (int (length xs)) os (length rows * Bn),
              indices = indices_after rows Bn os xs (length rows * Bn),
              warning = w, logged = []\<rparr>"
proof -
  define n where "n = int (length xs)"
  define K where "K = length rows * Bn"
  define P where "P = (\<lambda>k s. offsets s = offsets_after n os k \<and>
      indices s = indices_after rows Bn os xs k \<and>
      warning s = int (detected rows Bn os xs k) \<and> log_ok s)"
  have p0: "P 0 \<lparr>offsets = os, indices = xs, warning = 0, logged = []\<rparr>"
    by (simp add: P_def log_ok_def)
  have stepW: "case segment_body WARNING n (rows ! t) (int Bn) t b s of
          Inl e \<Rightarrow> False | Inr s' \<Rightarrow> P (Suc (t * Bn + b)) s'"
    if inv: "P (t * Bn + b) s" and t: "t < length rows" and b: "b < Bn" for t b s
  proof -
    define k where "k = t * Bn + b"
    from flat_index [OF t b] have kK: "k < K" and kd: "k div Bn = t"
      by (simp_all add: k_def K_def)
    from inv have o: "offsets s = offsets_after n os k" and i: "indices s = indices_after rows Bn os xs k"
      and w: "warning s = int (detected rows Bn os xs k)" and l: "log_ok s"
      by (simp_all add: P_def k_def)
    have len: "Suc k < length (offsets s)" using kK assms b by (auto simp: o K_def)
    have nn: "n = int (length (indices s))" by (simp add: i n_def)
    from segment_body_WARNING [OF len k_def nn, of "rows ! t"] l
    show ?thesis
      by (auto simp: P_def k_def [symmetric] o i w kd n_def Let_def
          offsets_after_Suc indices_after_Suc detected_Suc)
  qed
  have "case for_loop 0 (int (length rows)) (table_body WARNING rows n (int Bn))
             \<lparr>offsets = os, indices = xs, warning = 0, logged = []\<rparr> of
           Inl e \<Rightarrow> False | Inr s' \<Rightarrow> P (length rows * Bn) s'"
    by (rule call_rule [where P = P, OF p0 stepW])
  then show "\<exists>s'. for_loop 0 (int (length rows)) (table_body WARNING rows (int (length xs)) (int Bn))
             \<lparr>offsets = os, indices = xs, warning = 0, logged = []\<rparr> = Inr s' \<and>
           offsets s' = offsets_after (int (length xs)) os (length rows * Bn) \<and>
           indices s' = indices_after rows Bn os xs (length rows * Bn) \<and>
           warning s' = int (detected rows Bn os xs (length rows * Bn)) \<and>
           log_ok s'"
    by (auto simp: P_def n_def split: sum.splits)
  define R where "R = (\<lambda>k s. s = \<lparr>offsets = offsets_after n os k,
      indices = indices_after rows Bn os xs k, warning = w, logged = []\<rparr>)"
  have r0: "R 0 \<lparr>offsets = os, indices = xs, warning = w, logged = []\<rparr>"
    by (simp add: R_def)
  have stepI: "case segment_body IGNORE n (rows ! t) (int Bn) t b s of
          Inl e \<Rightarrow> False | Inr s' \<Rightarrow> R (Suc (t * Bn + b)) s'"
    if inv: "R (t * Bn + b) s" and t: "t < length rows" and b: "b < Bn" for t b s
  proof -
    define k where "k = t * Bn + b"
    from flat_index [OF t b] have kK: "k < K" and kd: "k div Bn = t"
      by (simp_all add: k_def K_def)
    from inv have s: "s = \<lparr>offsets = offsets_after n os k,
      indices = indices_after rows Bn os xs k, warning = w, logged = []\<rparr>"
      by (simp add: R_def k_def)
    have len: "Suc k < length (offsets s)" using kK assms b by (auto simp: s K_def)
    have nn: "n = int (length (indices s))" by (simp add: s n_def)
    show ?thesis
      unfolding segment_body_IGNORE [OF len k_def nn]
      by (simp add: R_def k_def [symmetric] s kd n_def Let_def
          offsets_after_Suc indices_after_Suc)
  qed
  have "case for_loop 0 (int (length rows)) (table_body IGNORE rows n (int Bn))
             \<lparr>offsets = os, indices = xs, warning = w, logged = []\<rparr> of
           Inl e \<Rightarrow> False | Inr s' \<Rightarrow> R (length rows * Bn) s'"
    by (rule call_rule [where P = R, OF r0 stepI])
  then show "for_loop 0 (int (length rows)) (table_body IGNORE rows (int (length xs)) (int Bn))
             \<lparr>offsets = os, indices = xs, warning = w, logged = []\<rparr> =
         Inr \<lparr>offsets = offsets_after (int (length xs)) os (length rows * Bn),
              indices = indices_after rows Bn os xs (length rows * Bn),
              warning = w, logged = []\<rparr>"
    by (auto simp: R_def n_def split: sum.splits)
qed

subsection \<open>The offsets after \<open>k\<close> segments\<close>

text \<open>
  Segment \<open>k\<close> ends where segment \<open>k + 1\<close> starts, so after the first repair each segment
  starts at a value in range and only its end can change: the offsets a segment leaves are
  final, they are in range and they increase.
\<close>

lemma offsets_after_untouched: "k < j \<Longrightarrow> offsets_after n os k ! j = os ! j"
  by (induction k) (simp_all add: Let_def offsets_after_Suc)

lemma offsets_after_range:
  assumes "0 \<le> n"
  shows "k < length os \<Longrightarrow> j < k \<Longrightarrow>
    0 \<le> offsets_after n os k ! j \<and> offsets_after n os k ! j \<le> offsets_after n os k ! Suc j \<and>
    offsets_after n os k ! Suc j \<le> n"
proof (induction k arbitrary: j)
  case 0
  then show ?case by simp
next
  case (Suc k)
  define cur where "cur = offsets_after n os k"
  define cs where "cs = clamp_start n (cur ! k)"
  define ce where "ce = clamp_end n (cur ! k) (cur ! Suc k)"
  have new: "offsets_after n os (Suc k) = cur[k := cs, Suc k := ce]"
    by (simp add: cur_def cs_def ce_def Let_def offsets_after_Suc)
  have len: "Suc k < length cur" "k < length cur" using Suc.prems by (simp_all add: cur_def)
  note cb = clamp_bounds [OF assms, of "cur ! k" "cur ! Suc k", folded cs_def ce_def]
  show ?case
  proof (cases "j = k")
    case True
    with len cb show ?thesis by (simp add: new)
  next
    case False
    with Suc.prems have jk: "j < k" by simp
    from Suc.IH [OF _ jk] Suc.prems
    have ih: "0 \<le> cur ! j" "cur ! j \<le> cur ! Suc j" "cur ! Suc j \<le> n"
      by (simp_all add: cur_def)
    show ?thesis
    proof (cases "Suc j = k")
      case True
      with ih have "cs = cur ! k" by (auto simp: cs_def clamp_start_def)
      with True ih len jk show ?thesis by (simp add: new)
    next
      case False
      with jk ih len show ?thesis by (simp add: new)
    qed
  qed
qed

lemma offsets_after_step:
  assumes "0 \<le> n" "0 < k" "Suc k < length os"
  shows "offsets_after n os (Suc k) =
    (offsets_after n os k)[Suc k := max (offsets_after n os k ! k) (min (os ! Suc k) n)]"
proof -
  define cur where "cur = offsets_after n os k"
  from assms obtain j where j: "k = Suc j" by (cases k) auto
  have "j < k" "k < length os" using j assms by simp_all
  from offsets_after_range [OF assms(1) this(2) this(1)] j
  have r: "0 \<le> cur ! k" "cur ! k \<le> n" by (auto simp: cur_def)
  then have cs: "clamp_start n (cur ! k) = cur ! k" by (simp add: clamp_start_def)
  have u: "cur ! Suc k = os ! Suc k" by (simp add: cur_def offsets_after_untouched)
  show ?thesis
    by (simp add: offsets_after_Suc Let_def cur_def [symmetric] cs clamp_end_def u)
qed

lemma offsets_after_final:
  assumes "0 \<le> n" "0 < k"
  shows "K < length os \<Longrightarrow> k \<le> K \<Longrightarrow> j \<le> k \<Longrightarrow>
    offsets_after n os K ! j = offsets_after n os k ! j"
proof (induction K)
  case 0
  with assms show ?case by simp
next
  case (Suc K)
  show ?case
  proof (cases "k = Suc K")
    case True
    then show ?thesis by simp
  next
    case False
    with Suc.prems have kK: "k \<le> K" by simp
    with assms have K0: "0 < K" by simp
    have lt: "Suc K < length os" "K < length os" using Suc.prems by simp_all
    have "offsets_after n os (Suc K) ! j = offsets_after n os K ! j"
      using kK Suc.prems(3) by (simp add: offsets_after_step [OF assms(1) K0 lt(1)])
    also have "\<dots> = offsets_after n os k ! j"
      by (rule Suc.IH [OF lt(2) kK Suc.prems(3)])
    finally show ?thesis .
  qed
qed

lemma offsets_after_first:
  assumes "0 \<le> n" "k < K" "K < length os"
  shows "offsets_after n os K ! k = clamp_start n (offsets_after n os k ! k)"
    and "offsets_after n os K ! Suc k =
           clamp_end n (offsets_after n os k ! k) (offsets_after n os k ! Suc k)"
proof -
  have sk: "Suc k \<le> K" "0 < Suc k" using assms by simp_all
  have len: "Suc k < length os" using assms by simp
  have "offsets_after n os K ! k = offsets_after n os (Suc k) ! k"
    by (rule offsets_after_final [OF assms(1) sk(2) assms(3) sk(1)]) simp
  then show "offsets_after n os K ! k = clamp_start n (offsets_after n os k ! k)"
    using len by (simp add: offsets_after_Suc Let_def)
  have "offsets_after n os K ! Suc k = offsets_after n os (Suc k) ! Suc k"
    by (rule offsets_after_final [OF assms(1) sk(2) assms(3) sk(1)]) simp
  then show "offsets_after n os K ! Suc k =
           clamp_end n (offsets_after n os k ! k) (offsets_after n os k ! Suc k)"
    using len by (simp add: offsets_after_Suc Let_def)
qed


lemma offsets_after_mono:
  assumes "0 \<le> n" "K < length os"
  shows "j \<le> i \<Longrightarrow> i \<le> K \<Longrightarrow> offsets_after n os K ! j \<le> offsets_after n os K ! i"
proof (induction i)
  case 0
  then show ?case by simp
next
  case (Suc i)
  show ?case
  proof (cases "j = Suc i")
    case True
    then show ?thesis by simp
  next
    case False
    with Suc.prems have ji: "j \<le> i" "i < K" by simp_all
    from offsets_after_range [OF assms(1) assms(2) ji(2)]
    have "offsets_after n os K ! i \<le> offsets_after n os K ! Suc i" by simp
    moreover have "offsets_after n os K ! j \<le> offsets_after n os K ! i"
      using Suc.IH ji by simp
    ultimately show ?thesis by simp
  qed
qed

subsection \<open>The indices and the counter after \<open>k\<close> segments\<close>

lemma indices_after_step:
  assumes "k < K" "K < length os"
  shows "indices_after rows Bn os xs (Suc k) =
     sanitize (rows ! (k div Bn))
       (nat (offsets_after (int (length xs)) os K ! k))
       (nat (offsets_after (int (length xs)) os K ! Suc k))
       (indices_after rows Bn os xs k)"
  using offsets_after_first [OF _ assms, of "int (length xs)"]
  by (simp add: indices_after_Suc Let_def)

lemma indices_after_nth:
  assumes "K < length os"
  shows "k \<le> K \<Longrightarrow> i < length xs \<Longrightarrow>
     indices_after rows Bn os xs k ! i =
       (if \<exists>j<k. nat (offsets_after (int (length xs)) os K ! j) \<le> i \<and>
                 i < nat (offsets_after (int (length xs)) os K ! Suc j) \<and>
                 bad_index (rows ! (j div Bn)) (xs ! i)
        then 0 else xs ! i)"
proof (induction k)
  case 0
  then show ?case by simp
next
  case (Suc k)
  define o' where "o' = offsets_after (int (length xs)) os K"
  define Seg where "Seg = (\<lambda>j. nat (o' ! j) \<le> i \<and> i < nat (o' ! Suc j))"
  define Hit where "Hit = (\<lambda>k. \<exists>j<k. Seg j \<and> bad_index (rows ! (j div Bn)) (xs ! i))"
  have n0: "0 \<le> int (length xs)" by simp
  from Suc.prems have kK: "k < K" "k \<le> K" by simp_all
  have ih: "indices_after rows Bn os xs k ! i = (if Hit k then 0 else xs ! i)"
    using Suc.IH [OF kK(2) Suc.prems(2)] by (simp add: Hit_def Seg_def o'_def)
  have len: "i < length (indices_after rows Bn os xs k)" using Suc.prems by simp
  have new: "indices_after rows Bn os xs (Suc k) ! i =
      (if Seg k \<and> bad_index (rows ! (k div Bn)) (indices_after rows Bn os xs k ! i)
       then 0 else indices_after rows Bn os xs k ! i)"
    using len by (simp add: indices_after_step [OF kK(1) assms] nth_sanitize Seg_def o'_def)
  have hs: "Hit (Suc k) \<longleftrightarrow> Hit k \<or> (Seg k \<and> bad_index (rows ! (k div Bn)) (xs ! i))"
    unfolding Hit_def by (auto simp: less_Suc_eq)
  have goal: "indices_after rows Bn os xs (Suc k) ! i = (if Hit (Suc k) then 0 else xs ! i)"
  proof (cases "Seg k")
    case True
    have early: "\<not> Seg j" if "j < k" for j
    proof -
      from that kK have "Suc j \<le> k" by simp
      from offsets_after_mono [OF n0 assms this kK(2)] have "o' ! Suc j \<le> o' ! k" by (simp add: o'_def)
      with True show ?thesis unfolding Seg_def by linarith
    qed
    then have "\<not> Hit k" by (auto simp: Hit_def)
    with True ih new hs show ?thesis by simp
  next
    case False
    with ih new hs show ?thesis by simp
  qed
  then show ?case by (simp add: Hit_def Seg_def o'_def)
qed




subsection \<open>Inputs without a violation\<close>

lemma clean_Suc:
  "clean rows Bn os xs (Suc k) \<longleftrightarrow> clean rows Bn os xs k \<and>
     \<not> segment_invalid (int (length xs)) (os ! k) (os ! Suc k) \<and>
     count_bad (rows ! (k div Bn)) xs (nat (os ! k)) (nat (os ! Suc k)) = 0"
  by (auto simp: clean_def less_Suc_eq)

lemma clean_mono: "clean rows Bn os xs K \<Longrightarrow> k \<le> K \<Longrightarrow> clean rows Bn os xs k"
  by (simp add: clean_def)

lemma sanitize_id: "count_bad nr xs a e = 0 \<Longrightarrow> sanitize nr a e xs = xs"
  by (rule nth_equalityI) (auto simp: nth_sanitize count_bad_zero_iff)

lemma clean_noop:
  "clean rows Bn os xs k \<Longrightarrow>
   offsets_after (int (length xs)) os k = os \<and> indices_after rows Bn os xs k = xs \<and>
   detected rows Bn os xs k = 0"
proof (induction k)
  case 0
  then show ?case by simp
next
  case (Suc k)
  from Suc.prems have c: "clean rows Bn os xs k"
    and v: "\<not> segment_invalid (int (length xs)) (os ! k) (os ! Suc k)"
    and z: "count_bad (rows ! (k div Bn)) xs (nat (os ! k)) (nat (os ! Suc k)) = 0"
    by (simp_all add: clean_Suc)
  from Suc.IH [OF c] clamp_valid [OF v] z show ?case
    by (simp add: offsets_after_Suc indices_after_Suc detected_Suc Let_def sanitize_id v)
qed

lemma detected_zero_clean:
  "detected rows Bn os xs k = 0 \<Longrightarrow> clean rows Bn os xs k"
proof (induction k)
  case 0
  then show ?case by (simp add: clean_def)
next
  case (Suc k)
  define n where "n = int (length xs)"
  define cur where "cur = offsets_after n os k"
  from Suc.prems have d: "detected rows Bn os xs k = 0"
    and v: "\<not> segment_invalid n (cur ! k) (cur ! Suc k)"
    and z: "count_bad (rows ! (k div Bn)) (indices_after rows Bn os xs k)
             (nat (clamp_start n (cur ! k))) (nat (clamp_end n (cur ! k) (cur ! Suc k))) = 0"
    by (simp_all add: detected_Suc Let_def n_def cur_def split: if_splits)
  from Suc.IH [OF d] have c: "clean rows Bn os xs k" .
  from clean_noop [OF c] have e: "cur = os" "indices_after rows Bn os xs k = xs"
    by (simp_all add: cur_def n_def)
  from v e have v': "\<not> segment_invalid n (os ! k) (os ! Suc k)" by simp
  from z e clamp_valid [OF v'] have "count_bad (rows ! (k div Bn)) xs (nat (os ! k)) (nat (os ! Suc k)) = 0"
    by simp
  with c v' show ?case by (simp add: clean_Suc n_def)
qed

lemma run_fatal:
  assumes "Bn = 0 \<or> length rows * Bn < length (offsets s)"
  shows "for_loop 0 (int (length rows))
           (table_body FATAL rows (int (length (indices s))) (int Bn)) s =
         (if clean rows Bn (offsets s) (indices s) (length rows * Bn)
          then Inr s else Inl TorchCheckFailed)"
proof -
  define n where "n = int (length (indices s))"
  define K where "K = length rows * Bn"
  define P where "P = (\<lambda>k s'. s' = s \<and> clean rows Bn (offsets s) (indices s) k)"
  define Q where "Q = (\<lambda>e. e = TorchCheckFailed \<and> \<not> clean rows Bn (offsets s) (indices s) K)"
  have p0: "P 0 s" by (simp add: P_def clean_def)
  have step: "case segment_body FATAL n (rows ! t) (int Bn) t b s1 of
          Inl e \<Rightarrow> Q e | Inr s' \<Rightarrow> P (Suc (t * Bn + b)) s'"
    if inv: "P (t * Bn + b) s1" and t: "t < length rows" and b: "b < Bn" for t b s1
  proof -
    define k where "k = t * Bn + b"
    from flat_index [OF t b] have kK: "k < K" and kd: "k div Bn = t"
      by (simp_all add: k_def K_def)
    from inv have s1: "s1 = s" and c: "clean rows Bn (offsets s) (indices s) k"
      by (simp_all add: P_def k_def)
    have len: "Suc k < length (offsets s)" using kK assms b by (auto simp: K_def)
    have nn: "n = int (length (indices s))" by (simp add: n_def)
    have m: "\<not> clean rows Bn (offsets s) (indices s) (Suc k) \<Longrightarrow>
         \<not> clean rows Bn (offsets s) (indices s) K"
      using clean_mono [of rows Bn "offsets s" "indices s" K "Suc k"] kK by auto
    show ?thesis
      unfolding s1 segment_body_FATAL [OF len k_def nn]
      using c m by (auto simp: P_def Q_def k_def [symmetric] clean_Suc kd n_def)
  qed
  have "case for_loop 0 (int (length rows)) (table_body FATAL rows n (int Bn)) s of
           Inl e \<Rightarrow> Q e | Inr s' \<Rightarrow> P (length rows * Bn) s'"
    by (rule call_rule [where P = P, OF p0 step])
  then show ?thesis
    by (auto simp: P_def Q_def n_def K_def split: sum.splits)
qed

subsection \<open>The number of batch elements, and the call as a whole\<close>

lemma cpp_div_shape:
  assumes "0 < T"
  shows "cpp_div (int (T * B + 1) - 1) (int T) = int B"
proof -
  have "int (T * B + 1) - 1 = int T * int B" by simp
  moreover have "sgn (int T * int B) * (int T * int B div int T) = int B"
    using assms by (cases "B = 0") (simp_all add: sgn_mult)
  ultimately show ?thesis using assms by (simp add: cpp_div_def)
qed

lemma cpp_div_derived:
  assumes "0 < T"
  shows "cpp_div (int L - 1) (int T) < 0 \<or>
    (\<exists>Bn. cpp_div (int L - 1) (int T) = int Bn \<and> (Bn = 0 \<or> T * Bn < L))"
proof (cases "L = 0")
  case True
  show ?thesis
  proof (cases "T = 1")
    case True
    with \<open>L = 0\<close> show ?thesis by (simp add: cpp_div_def)
  next
    case False
    with assms have "1 < T" by simp
    then have "(1::int) div int T = 0" by simp
    with \<open>L = 0\<close> assms have "cpp_div (int L - 1) (int T) = int 0" by (simp add: cpp_div_def)
    then show ?thesis by blast
  qed
next
  case False
  then have e: "int L - 1 = int (L - 1)" by simp
  have "cpp_div (int (L - 1)) (int T) = int ((L - 1) div T)"
    using assms by (cases "L - 1 = 0") (simp_all add: cpp_div_def zdiv_int)
  moreover have "T * ((L - 1) div T) < L"
  proof -
    have "T * ((L - 1) div T) \<le> L - 1" by simp
    also have "L - 1 < L" using False by simp
    finally show ?thesis .
  qed
  ultimately show ?thesis unfolding e by blast
qed

lemma call_unfold:
  assumes "rows \<noteq> []"
  shows "bounds_check_indices_cpu rows xs os mode w =
     for_loop 0 (int (length rows))
       (table_body mode rows (int (length xs))
          (cpp_div (int (length os) - 1) (int (length rows))))
       \<lparr>offsets = os, indices = xs, warning = (if mode = WARNING then 0 else w), logged = []\<rparr>"
  using assms by (simp add: bounds_check_indices_cpu_def Let_def)

lemma run_negative:
  assumes "B \<le> 0"
  shows "for_loop 0 (int (length rows)) (table_body mode rows n B) s = Inr s"
proof -
  define I where "I = (\<lambda>(t::nat) s'. s' = s)"
  have i0: "I 0 s" by (simp add: I_def)
  have step: "case table_body mode rows n B t s1 of Inl e \<Rightarrow> False | Inr s' \<Rightarrow> I (Suc t) s'"
    if "I t s1" "int t < int (length rows)" for t s1
    using that assms by (simp add: table_body_def acc_read_def for_loop.simps [of 0 B] I_def)
  have "case for_loop 0 (int (length rows)) (table_body mode rows n B) s of
          Inl e \<Rightarrow> False | Inr s' \<Rightarrow> I (nat (int (length rows))) s'"
    by (rule for_loop_rule0 [where I = I, OF i0 step])
  then show ?thesis by (auto simp: I_def split: sum.splits)
qed

subsection \<open>From the pairs of table and batch element to the positions\<close>

lemma flat_all:
  fixes T B :: nat
  shows "(\<forall>t\<in>{0..<T}. \<forall>b\<in>{0..<B}. P (t * B + b) t) \<longleftrightarrow> (\<forall>k<T * B. P k (k div B))"
proof
  assume l: "\<forall>t\<in>{0..<T}. \<forall>b\<in>{0..<B}. P (t * B + b) t"
  show "\<forall>k<T * B. P k (k div B)"
  proof (intro allI impI)
    fix k assume k: "k < T * B"
    then have B0: "0 < B" by (cases B) simp_all
    have "k div B < T" using k B0 by (simp add: less_mult_imp_div_less)
    moreover have "k mod B < B" using B0 by simp
    ultimately have "k div B \<in> {0..<T}" "k mod B \<in> {0..<B}" by simp_all
    with l have "P (k div B * B + k mod B) (k div B)" by blast
    moreover have "k div B * B + k mod B = k" by simp
    ultimately show "P k (k div B)" by (simp only:)
  qed
next
  assume r: "\<forall>k<T * B. P k (k div B)"
  show "\<forall>t\<in>{0..<T}. \<forall>b\<in>{0..<B}. P (t * B + b) t"
  proof (intro ballI)
    fix t b assume "t \<in> {0..<T}" "b \<in> {0..<B}"
    then have tb: "t < T" "b < B" by simp_all
    from flat_index [OF tb] r show "P (t * B + b) t" by metis
  qed
qed

lemma segment_safe_clean:
  "segment_safe nr xs st en \<longleftrightarrow>
     \<not> segment_invalid (int (length xs)) st en \<and> count_bad nr xs (nat st) (nat en) = 0"
proof (cases "segment_invalid (int (length xs)) st en")
  case True
  then show ?thesis by (auto simp: segment_safe_def segment_invalid_def)
next
  case False
  then have r: "0 \<le> st" "st \<le> en" "en \<le> int (length xs)"
    by (auto simp: segment_invalid_def)
  have "(\<forall>i\<in>{0..<length xs}. st \<le> int i \<and> int i < en \<and> xs ! i \<noteq> - 1 \<longrightarrow>
        0 \<le> xs ! i \<and> xs ! i < nr) \<longleftrightarrow>
     (\<forall>i. nat st \<le> i \<and> i < nat en \<longrightarrow> \<not> bad_index nr (xs ! i))"
  proof (intro iffI allI impI ballI)
    fix i assume a: "\<forall>i\<in>{0..<length xs}. st \<le> int i \<and> int i < en \<and> xs ! i \<noteq> - 1 \<longrightarrow>
        0 \<le> xs ! i \<and> xs ! i < nr" and i: "nat st \<le> i \<and> i < nat en"
    from i r have "i < length xs" "st \<le> int i" "int i < en" by linarith+
    with a show "\<not> bad_index nr (xs ! i)" by (auto simp: bad_index_def)
  next
    fix i assume a: "\<forall>i. nat st \<le> i \<and> i < nat en \<longrightarrow> \<not> bad_index nr (xs ! i)"
      and i: "st \<le> int i \<and> int i < en \<and> xs ! i \<noteq> - 1"
    from i r have "nat st \<le> i \<and> i < nat en" by linarith
    with a i show "0 \<le> xs ! i \<and> xs ! i < nr" by (auto simp: bad_index_def)
  qed
  with False r show ?thesis by (simp add: segment_safe_def count_bad_zero_iff)
qed

lemma segment_violated_iff: "segment_violated nr xs st en \<longleftrightarrow> \<not> segment_safe nr xs st en"
  unfolding segment_violated_def segment_safe_def by (auto simp: not_le not_less)

lemma safety_clean:
  "safety_invariant rows B os xs \<longleftrightarrow> clean rows B os xs (length rows * B)"
proof -
  define P where "P = (\<lambda>k t. segment_safe (rows ! t) xs (os ! k) (os ! Suc k))"
  have "safety_invariant rows B os xs \<longleftrightarrow>
      (\<forall>t\<in>{0..<length rows}. \<forall>b\<in>{0..<B}. P (t * B + b) t)"
    by (simp add: safety_invariant_def P_def)
  also have "\<dots> \<longleftrightarrow> (\<forall>k<length rows * B. P k (k div B))" by (rule flat_all)
  also have "\<dots> \<longleftrightarrow> clean rows B os xs (length rows * B)"
    by (simp add: P_def clean_def segment_safe_clean)
  finally show ?thesis .
qed

lemma violation_not_clean:
  "has_violation rows B os xs \<longleftrightarrow> \<not> clean rows B os xs (length rows * B)"
  unfolding safety_clean [symmetric]
  by (simp add: has_violation_def safety_invariant_def segment_violated_iff)

subsection \<open>The call under the three policies\<close>

lemma call_shape:
  assumes "rows \<noteq> []" "length os = length rows * B + 1"
  shows "bounds_check_indices_cpu rows xs os mode w =
     for_loop 0 (int (length rows)) (table_body mode rows (int (length xs)) (int B))
       \<lparr>offsets = os, indices = xs, warning = (if mode = WARNING then 0 else w), logged = []\<rparr>"
  using assms cpp_div_shape [of "length rows" B]
  by (simp add: call_unfold)

lemma call_WARNING:
  assumes "rows \<noteq> []" "length os = length rows * B + 1"
  shows "\<exists>s'. bounds_check_indices_cpu rows xs os WARNING w = Inr s' \<and>
           offsets s' = offsets_after (int (length xs)) os (length rows * B) \<and>
           indices s' = indices_after rows B os xs (length rows * B) \<and>
           warning s' = int (detected rows B os xs (length rows * B)) \<and>
           log_ok s'"
proof -
  have "B = 0 \<or> length rows * B < length os" using assms(2) by simp
  from run_nonfatal(1) [OF this, of xs] show ?thesis
    by (simp add: call_shape [OF assms])
qed

lemma call_IGNORE:
  assumes "rows \<noteq> []" "length os = length rows * B + 1"
  shows "bounds_check_indices_cpu rows xs os IGNORE w =
           Inr \<lparr>offsets = offsets_after (int (length xs)) os (length rows * B),
                indices = indices_after rows B os xs (length rows * B),
                warning = w, logged = []\<rparr>"
proof -
  have "B = 0 \<or> length rows * B < length os" using assms(2) by simp
  from run_nonfatal(2) [OF this, of xs w] show ?thesis
    by (simp add: call_shape [OF assms])
qed

lemma call_FATAL:
  assumes "rows \<noteq> []" "length os = length rows * B + 1"
  shows "bounds_check_indices_cpu rows xs os FATAL w =
           (if clean rows B os xs (length rows * B)
            then Inr \<lparr>offsets = os, indices = xs, warning = w, logged = []\<rparr>
            else Inl TorchCheckFailed)"
proof -
  define s where "s = \<lparr>offsets = os, indices = xs, warning = w, logged = []\<rparr>"
  have "B = 0 \<or> length rows * B < length (offsets s)" using assms(2) by (simp add: s_def)
  from run_fatal [OF this] show ?thesis
    by (simp add: call_shape [OF assms] s_def)
qed

lemma repaired_after:
  assumes "K < length os" "K = length rows * B"
  shows "repaired_invariant rows B (offsets_after (int (length xs)) os K)
           (indices_after rows B os xs K)"
proof -
  define n where "n = int (length xs)"
  define o' where "o' = offsets_after n os K"
  define x' where "x' = indices_after rows B os xs K"
  define P where "P = (\<lambda>k t. segment_repaired (rows ! t) x' (o' ! k) (o' ! Suc k))"
  have n0: "0 \<le> n" by (simp add: n_def)
  have lx: "length x' = length xs" by (simp add: x'_def)
  have seg: "P k (k div B)" if k: "k < K" for k
  proof -
    define nr where "nr = rows ! (k div B)"
    from offsets_after_range [OF n0 assms(1) k]
    have r: "0 \<le> o' ! k" "o' ! k \<le> o' ! Suc k" "o' ! Suc k \<le> n" by (simp_all add: o'_def)
    have "if 0 < nr then 0 \<le> x' ! i \<and> x' ! i < nr else x' ! i = 0"
      if i: "i < length xs" and a: "o' ! k \<le> int i" and b: "int i < o' ! Suc k"
        and ns: "x' ! i \<noteq> - 1" for i
    proof -
      define Hit where "Hit \<longleftrightarrow> (\<exists>j<K. nat (o' ! j) \<le> i \<and> i < nat (o' ! Suc j) \<and>
          bad_index (rows ! (j div B)) (xs ! i))"
      have v: "x' ! i = (if Hit then 0 else xs ! i)"
        using indices_after_nth [OF assms(1) le_refl i, of rows B]
        by (simp add: x'_def Hit_def o'_def n_def)
      show ?thesis
      proof (cases Hit)
        case True
        with v show ?thesis by simp
      next
        case False
        have "nat (o' ! k) \<le> i \<and> i < nat (o' ! Suc k)" using a b r by linarith
        with False k have "\<not> bad_index nr (xs ! i)" by (auto simp: Hit_def nr_def)
        with False v ns show ?thesis by (auto simp: bad_index_def)
      qed
    qed
    then have "\<forall>i\<in>{0..<length x'}. o' ! k \<le> int i \<and> int i < o' ! Suc k \<and> x' ! i \<noteq> - 1 \<longrightarrow>
        (if 0 < nr then 0 \<le> x' ! i \<and> x' ! i < nr else x' ! i = 0)"
      by (simp add: lx)
    with r show ?thesis
      unfolding P_def segment_repaired_def nr_def [symmetric] lx n_def by simp
  qed
  have "repaired_invariant rows B o' x' \<longleftrightarrow>
      (\<forall>t\<in>{0..<length rows}. \<forall>b\<in>{0..<B}. P (t * B + b) t)"
    by (simp add: repaired_invariant_def P_def)
  also have "\<dots> \<longleftrightarrow> (\<forall>k<length rows * B. P k (k div B))" by (rule flat_all)
  finally show ?thesis using seg assms(2) by (simp add: o'_def x'_def n_def)
qed

lemma repaired_safe:
  assumes "\<forall>t\<in>{0..<length rows}. 0 < rows ! t" "repaired_invariant rows B os xs"
  shows "safety_invariant rows B os xs"
  using assms
  by (simp add: repaired_invariant_def safety_invariant_def segment_repaired_def
      segment_safe_def)

lemma log_ok_length: "log_ok s \<Longrightarrow> length (logged s) = (if warning s = 0 then 0 else 1)"
  by (simp add: log_ok_def)

lemma call_negative:
  assumes "rows \<noteq> []" "cpp_div (int (length os) - 1) (int (length rows)) < 0"
  shows "bounds_check_indices_cpu rows xs os mode w =
       Inr \<lparr>offsets = os, indices = xs, warning = (if mode = WARNING then 0 else w), logged = []\<rparr>"
proof -
  from assms(2) have "cpp_div (int (length os) - 1) (int (length rows)) \<le> 0" by simp
  from run_negative [OF this] show ?thesis
    by (simp add: call_unfold [OF assms(1)])
qed

lemma call_derived:
  assumes "rows \<noteq> []" "\<not> cpp_div (int (length os) - 1) (int (length rows)) < 0"
    and "Bn = nat (cpp_div (int (length os) - 1) (int (length rows)))"
  shows "Bn = 0 \<or> length rows * Bn < length os"
    and "bounds_check_indices_cpu rows xs os mode w =
            for_loop 0 (int (length rows)) (table_body mode rows (int (length xs)) (int Bn))
              \<lparr>offsets = os, indices = xs, warning = (if mode = WARNING then 0 else w),
               logged = []\<rparr>"
proof -
  from assms(1) have T: "0 < length rows" by simp
  from cpp_div_derived [OF T, of "length os"] assms(2)
  obtain Bn' where b: "cpp_div (int (length os) - 1) (int (length rows)) = int Bn'"
      "Bn' = 0 \<or> length rows * Bn' < length os" by blast
  with assms(3) have e: "Bn = Bn'" by simp
  with b show "Bn = 0 \<or> length rows * Bn < length os" by simp
  from b e show "bounds_check_indices_cpu rows xs os mode w =
            for_loop 0 (int (length rows)) (table_body mode rows (int (length xs)) (int Bn))
              \<lparr>offsets = os, indices = xs, warning = (if mode = WARNING then 0 else w),
               logged = []\<rparr>"
    by (simp add: call_unfold [OF assms(1)])
qed

lemma flat_ex:
  fixes T B :: nat
  shows "(\<exists>t\<in>{0..<T}. \<exists>b\<in>{0..<B}. P (t * B + b) t) \<longleftrightarrow> (\<exists>k<T * B. P k (k div B))"
  using flat_all [of T B "\<lambda>k t. \<not> P k t"] by blast







lemma check_index_sentinel:
  assumes "0 \<le> st + int l" "st + int l < int (length (indices s))"
    and "indices s ! nat (st + int l) = - 1"
  shows "check_index mode nr t b st l s = Inr s"
  using assms by (simp add: check_index_def acc_read_def)

lemma offsets_after_next:
  assumes "0 \<le> n" "k < K" "K < length os"
  shows "offsets_after n os K ! Suc k = max (offsets_after n os K ! k) (min (os ! Suc k) n)"
proof -
  have "offsets_after n os K ! Suc k =
      max (clamp_start n (offsets_after n os k ! k)) (min (offsets_after n os k ! Suc k) n)"
    unfolding offsets_after_first(2) [OF assms] clamp_end_def by (rule refl)
  also have "clamp_start n (offsets_after n os k ! k) = offsets_after n os K ! k"
    by (rule offsets_after_first(1) [OF assms, symmetric])
  also have "offsets_after n os k ! Suc k = os ! Suc k" by (simp add: offsets_after_untouched)
  finally show ?thesis .
qed

lemma offsets_after_lower:
  assumes "0 \<le> n" "k \<le> K" "K < length os"
  shows "min (os ! k) n \<le> offsets_after n os K ! k"
proof (cases k)
  case 0
  show ?thesis
  proof (cases "K = 0")
    case True
    with 0 show ?thesis by simp
  next
    case False
    then have "0 < K" by simp
    from offsets_after_first(1) [OF assms(1) this assms(3)] 0 show ?thesis
      by (simp add: clamp_start_def)
  qed
next
  case (Suc j)
  with assms(2) have "j < K" by simp
  from offsets_after_next [OF assms(1) this assms(3)] Suc show ?thesis by simp
qed

lemma final_segment_in_input:
  assumes "k < K" "K < length os" "i < length xs"
    and "offsets_after (int (length xs)) os K ! k \<le> int i"
    and "int i < offsets_after (int (length xs)) os K ! Suc k"
  shows "os ! k \<le> int i \<and> int i < os ! Suc k"
proof -
  define n where "n = int (length xs)"
  define o' where "o' = offsets_after n os K"
  have n0: "0 \<le> n" by (simp add: n_def)
  have i: "int i < n" using assms(3) by (simp add: n_def)
  from assms(1) have kK: "k \<le> K" by simp
  from offsets_after_lower [OF n0 kK assms(2)] assms(4) have "min (os ! k) n \<le> int i"
    by (simp add: n_def)
  with i have lo: "os ! k \<le> int i" by simp
  from offsets_after_next [OF n0 assms(1,2)] have "o' ! Suc k = max (o' ! k) (min (os ! Suc k) n)"
    by (simp add: o'_def)
  with assms(4,5) have "int i < min (os ! Suc k) n"
    unfolding o'_def n_def by linarith
  with lo show ?thesis by simp
qed

lemma indices_after_frame:
  assumes "K < length os" "K = length rows * B" "i < length xs"
    and "xs ! i = - 1 \<or>
         \<not> in_some_segment (length rows) B (offsets_after (int (length xs)) os K) i \<or>
         \<not> in_some_segment (length rows) B os i"
  shows "indices_after rows B os xs K ! i = xs ! i"
proof -
  define o' where "o' = offsets_after (int (length xs)) os K"
  have "\<not> (nat (o' ! j) \<le> i \<and> i < nat (o' ! Suc j) \<and> bad_index (rows ! (j div B)) (xs ! i))"
    if j: "j < K" for j
  proof
    assume h: "nat (o' ! j) \<le> i \<and> i < nat (o' ! Suc j) \<and> bad_index (rows ! (j div B)) (xs ! i)"
    then have ns: "xs ! i \<noteq> - 1" by (simp add: bad_index_def)
    from h have fin: "o' ! j \<le> int i" "int i < o' ! Suc j" by linarith+
    from final_segment_in_input [OF j assms(1,3)] fin
    have inp: "os ! j \<le> int i \<and> int i < os ! Suc j" by (simp add: o'_def)
    from fin j have "\<exists>k<length rows * B. o' ! k \<le> int i \<and> int i < o' ! Suc k"
      using assms(2) by auto
    then have 1: "in_some_segment (length rows) B o' i"
      unfolding in_some_segment_def
      using flat_ex [of "length rows" B "\<lambda>k t. o' ! k \<le> int i \<and> int i < o' ! Suc k"]
      by simp
    from inp j have "\<exists>k<length rows * B. os ! k \<le> int i \<and> int i < os ! Suc k"
      using assms(2) by auto
    then have 2: "in_some_segment (length rows) B os i"
      unfolding in_some_segment_def
      using flat_ex [of "length rows" B "\<lambda>k t. os ! k \<le> int i \<and> int i < os ! Suc k"]
      by simp
    from assms(4) ns 1 2 show False by (simp add: o'_def)
  qed
  then show ?thesis
    using indices_after_nth [OF assms(1) le_refl assms(3), of rows B] by (auto simp: o'_def)
qed

lemma call_frame_general:
  assumes "bounds_check_indices_cpu rows xs os mode w = Inr s'"
  shows "length (indices s') = length xs \<and>
    (\<forall>i\<in>{0..<length xs}. xs ! i = - 1 \<longrightarrow> indices s' ! i = - 1) \<and>
    (mode \<noteq> WARNING \<longrightarrow> warning s' = w)"
proof -
  from assms have r: "rows \<noteq> []" by (auto simp: bounds_check_indices_cpu_def)
  show ?thesis
  proof (cases "cpp_div (int (length os) - 1) (int (length rows)) < 0")
    case True
    from call_negative [OF r True, of xs mode w] assms show ?thesis by auto
  next
    case nn: False
    define Bn where "Bn = nat (cpp_div (int (length os) - 1) (int (length rows)))"
    define K where "K = length rows * Bn"
    note d = call_derived [OF r nn Bn_def]
    have fr: "indices_after rows Bn os xs K ! i = xs ! i"
      if "i < length xs" "xs ! i = - 1" for i
    proof (cases "Bn = 0")
      case True
      then show ?thesis by (simp add: K_def)
    next
      case False
      with d(1) have "K < length os" by (simp add: K_def)
      from indices_after_frame [OF this K_def that(1)] that(2) show ?thesis by simp
    qed
    show ?thesis
    proof (cases mode)
      case FATAL
      define s where "s = \<lparr>offsets = os, indices = xs, warning = w, logged = []\<rparr>"
      have "Bn = 0 \<or> length rows * Bn < length (offsets s)" using d(1) by (simp add: s_def)
      from run_fatal [OF this] d(2) [of xs mode w] FATAL assms show ?thesis
        by (auto simp: s_def split: if_splits)
    next
      case WARNING
      from run_nonfatal(1) [OF d(1), of xs] d(2) [of xs mode w] WARNING assms
      have "indices s' = indices_after rows Bn os xs K" by (auto simp: K_def)
      with fr WARNING show ?thesis by simp
    next
      case IGNORE
      from run_nonfatal(2) [OF d(1), of xs w] d(2) [of xs mode w] IGNORE assms
      have "indices s' = indices_after rows Bn os xs K" "warning s' = w"
        by (auto simp: K_def)
      with fr IGNORE show ?thesis by simp
    qed
  qed
qed

lemma call_frame_shape:
  assumes "length os = length rows * B + 1"
    and "bounds_check_indices_cpu rows xs os mode w = Inr s'"
    and "i < length xs"
    and "\<not> in_some_segment (length rows) B (offsets s') i \<or>
         \<not> in_some_segment (length rows) B os i"
  shows "indices s' ! i = xs ! i"
proof -
  from assms(2) have r: "rows \<noteq> []" by (auto simp: bounds_check_indices_cpu_def)
  define K where "K = length rows * B"
  have K: "K < length os" "K = length rows * B" using assms(1) by (simp_all add: K_def)
  show ?thesis
  proof (cases mode)
    case FATAL
    with assms(2) show ?thesis
      by (auto simp: call_FATAL [OF r assms(1)] split: if_splits)
  next
    case WARNING
    from call_WARNING [OF r assms(1), of xs w] assms(2) WARNING
    have "offsets s' = offsets_after (int (length xs)) os K"
      "indices s' = indices_after rows B os xs K" by (auto simp: K_def)
    then show ?thesis using indices_after_frame [OF K assms(3)] assms(4) by simp
  next
    case IGNORE
    from call_IGNORE [OF r assms(1), of xs w] assms(2) IGNORE
    have "offsets s' = offsets_after (int (length xs)) os K"
      "indices s' = indices_after rows B os xs K" by (auto simp: K_def)
    then show ?thesis using indices_after_frame [OF K assms(3)] assms(4) by simp
  qed
qed

section \<open>The properties\<close>

text \<open>
  Claim C1 states that after a call with the policy WARNING or IGNORE every segment
  satisfies \<open>0 \<le> Offsets[t*B+b] \<le> Offsets[t*B+b+1] \<le> len(Indices)\<close> and every entry of a
  segment of table \<open>t\<close> other than the sentinel lies in \<open>[0, RowCounts[t])\<close>, in particular
  when \<open>RowCounts[t] = 0\<close>. That last part does not hold: the repair writes the id 0, and 0
  is not a row of a table without rows. With one table without rows, one segment and the id
  5 in it, the call under IGNORE returns the id 0, and the invariant is false of what it
  returns.
\<close>

theorem safety_counterexample:
  "bounds_check_indices_cpu [0] [5] [0, 1] IGNORE 0 =
     Inr \<lparr>offsets = [0, 1], indices = [0], warning = 0, logged = []\<rparr> \<and>
   \<not> safety_invariant [0] 1 [0, 1] [0]"
proof
  show "bounds_check_indices_cpu [0] [5] [0, 1] IGNORE 0 =
     Inr \<lparr>offsets = [0, 1], indices = [0], warning = 0, logged = []\<rparr>"
    by code_simp
  show "\<not> safety_invariant [0] 1 [0, 1] [0]"
    by (simp add: safety_invariant_def segment_safe_def)
qed

text \<open>
  Claim C1, amended. For \<open>len(RowCounts) = T\<close>, \<open>len(Offsets) = T*B + 1\<close> and the policy
  WARNING or IGNORE, the call returns if there is a table at all, and after a call that
  returns the tensors have the lengths they had, for every table \<open>t\<close> and batch element
  \<open>b\<close> the offsets satisfy \<open>0 \<le> Offsets[t*B+b] \<le> Offsets[t*B+b+1] \<le> len(Indices)\<close>, and
  every entry of that segment other than the sentinel lies in \<open>[0, RowCounts[t])\<close> if
  \<open>RowCounts[t] > 0\<close>; in a table without rows it is 0. So the invariant as the claim has
  it holds whenever every table has a row.
\<close>

theorem safety_established:
  assumes "mode = WARNING \<or> mode = IGNORE" and "length os = length rows * B + 1"
  shows "(rows \<noteq> [] \<longrightarrow> (\<exists>s'. bounds_check_indices_cpu rows xs os mode w = Inr s')) \<and>
    (\<forall>s'. bounds_check_indices_cpu rows xs os mode w = Inr s' \<longrightarrow>
       length (offsets s') = length os \<and> length (indices s') = length xs \<and>
       repaired_invariant rows B (offsets s') (indices s') \<and>
       ((\<forall>t\<in>{0..<length rows}. 0 < rows ! t) \<longrightarrow>
          safety_invariant rows B (offsets s') (indices s')))"
proof (cases "rows = []")
  case True
  then show ?thesis by (simp add: bounds_check_indices_cpu_def)
next
  case r: False
  define K where "K = length rows * B"
  have K: "K < length os" "K = length rows * B" using assms(2) by (simp_all add: K_def)
  note rep = repaired_after [OF K, of xs]
  from assms(1) show ?thesis
  proof
    assume m: "mode = WARNING"
    from call_WARNING [OF r assms(2), of xs w] rep show ?thesis
      unfolding m K_def by (auto intro: repaired_safe)
  next
    assume m: "mode = IGNORE"
    from rep show ?thesis
      unfolding m call_IGNORE [OF r assms(2)] K_def by (auto intro: repaired_safe)
  qed
qed

theorem safety_established_witness:
  "\<exists>s'. bounds_check_indices_cpu [3] [1, 5, - 1, 2, 9] [0, 7, 5] WARNING 0 = Inr s' \<and>
      offsets s' = [0, 5, 5] \<and> indices s' = [1, 0, - 1, 2, 0] \<and>
      repaired_invariant [3] 2 (offsets s') (indices s') \<and>
      safety_invariant [3] 2 (offsets s') (indices s')"
proof -
  have c: "bounds_check_indices_cpu [3] [1, 5, - 1, 2, 9] [0, 7, 5] WARNING 0 =
     Inr \<lparr>offsets = [0, 5, 5], indices = [1, 0, - 1, 2, 0], warning = 3,
          logged = [SegmentMessage 0 0 0 7 5]\<rparr>"
    by code_simp
  from safety_established [of WARNING "[0, 7, 5]" "[3]" 2 "[1, 5, - 1, 2, 9]" 0] c
  show ?thesis by simp
qed

text \<open>
  Claim C2. If some segment of the input has \<open>start < 0\<close>, \<open>start > end\<close> or
  \<open>end > len(Indices)\<close>, or if a segment in range holds an id other than the sentinel that
  is negative or at least \<open>RowCounts[t]\<close>, a call with the policy FATAL does not return: a
  \<open>TORCH_CHECK\<close> throws. The outcome carries no tensors, so nothing counts as repaired.
\<close>

theorem fatal_strict:
  assumes "length os = length rows * B + 1" and "has_violation rows B os xs"
  shows "bounds_check_indices_cpu rows xs os FATAL w = Inl TorchCheckFailed"
proof -
  from assms(2) have "rows \<noteq> []" by (auto simp: has_violation_def)
  from call_FATAL [OF this assms(1)] assms(2) show ?thesis
    by (simp add: violation_not_clean)
qed

theorem fatal_strict_witness:
  "has_violation [3] 2 [0, 7, 5] [1, 5, - 1, 2, 9] \<and>
   bounds_check_indices_cpu [3] [1, 5, - 1, 2, 9] [0, 7, 5] FATAL 0 = Inl TorchCheckFailed"
proof -
  have h: "has_violation [3] 2 [0, 7, 5] [1, 5, - 1, 2, 9]"
    by (simp add: has_violation_def segment_violated_def numeral_2_eq_2
        atLeast0_lessThan_Suc)
  from fatal_strict [OF _ h] h show ?thesis by simp
qed

text \<open>
  Claim C3. If the input has at least one violation, of a segment or of a row id, a
  sequential call with the policy WARNING returns with exactly one message logged and a
  counter different from 0. The counter may hold anything before the call, since the routine
  zeroes it first.
\<close>

theorem single_diagnostic:
  assumes "length os = length rows * B + 1" and "has_violation rows B os xs"
  shows "\<exists>s'. bounds_check_indices_cpu rows xs os WARNING w = Inr s' \<and>
           length (logged s') = 1 \<and> warning s' \<noteq> 0"
proof -
  from assms(2) have r: "rows \<noteq> []" by (auto simp: has_violation_def)
  from call_WARNING [OF r assms(1), of xs w]
  obtain s' where s': "bounds_check_indices_cpu rows xs os WARNING w = Inr s'"
    "warning s' = int (detected rows B os xs (length rows * B))" "log_ok s'"
    by blast
  have "detected rows B os xs (length rows * B) \<noteq> 0"
    using assms(2) detected_zero_clean [of rows B os xs "length rows * B"]
    by (auto simp: violation_not_clean)
  with s' log_ok_length [OF s'(3)] show ?thesis by simp
qed

theorem single_diagnostic_witness:
  "has_violation [3] 2 [0, 7, 5] [1, 5, - 1, 2, 9] \<and>
   (\<exists>s'. bounds_check_indices_cpu [3] [1, 5, - 1, 2, 9] [0, 7, 5] WARNING 0 = Inr s' \<and>
           length (logged s') = 1 \<and> warning s' \<noteq> 0)"
proof -
  have h: "has_violation [3] 2 [0, 7, 5] [1, 5, - 1, 2, 9]"
    by (simp add: has_violation_def segment_violated_def numeral_2_eq_2
        atLeast0_lessThan_Suc)
  from single_diagnostic [OF _ h, of 0] h show ?thesis by simp
qed

text \<open>
  Claim C4. If the input satisfies the safety invariant already, the call returns under
  each of the three policies with the offsets and the indices it was given and without a
  message; under WARNING the counter is 0 afterwards, under FATAL and IGNORE it is what it
  was. There is at least one table: with none, the routine divides by zero before it looks
  at a segment.
\<close>

theorem noop_on_valid_input:
  assumes "rows \<noteq> []" and "length os = length rows * B + 1"
    and "safety_invariant rows B os xs"
  shows "bounds_check_indices_cpu rows xs os mode w =
     Inr \<lparr>offsets = os, indices = xs, warning = (if mode = WARNING then 0 else w),
          logged = []\<rparr>"
proof -
  from assms(3) have c: "clean rows B os xs (length rows * B)" by (simp add: safety_clean)
  note no = clean_noop [OF c]
  show ?thesis
  proof (cases mode)
    case FATAL
    with c show ?thesis by (simp add: call_FATAL [OF assms(1,2)])
  next
    case WARNING
    from call_WARNING [OF assms(1,2), of xs w]
    obtain s' where s': "bounds_check_indices_cpu rows xs os WARNING w = Inr s'"
      "offsets s' = os" "indices s' = xs" "warning s' = 0" "log_ok s'"
      using no by auto
    from log_ok_length [OF s'(5)] s'(4) have "logged s' = []" by simp
    with s' WARNING show ?thesis by (cases s') simp
  next
    case IGNORE
    with no show ?thesis by (simp add: call_IGNORE [OF assms(1,2)])
  qed
qed

theorem noop_on_valid_input_witness:
  "safety_invariant [3] 2 [0, 2, 5] [1, 2, - 1, 2, 0] \<and>
   bounds_check_indices_cpu [3] [1, 2, - 1, 2, 0] [0, 2, 5] WARNING 7 =
     Inr \<lparr>offsets = [0, 2, 5], indices = [1, 2, - 1, 2, 0], warning = 0, logged = []\<rparr>"
proof -
  have h: "safety_invariant [3] 2 [0, 2, 5] [1, 2, - 1, 2, 0]"
    by (simp add: safety_invariant_def segment_safe_def numeral_2_eq_2
        atLeast0_lessThan_Suc)
  from noop_on_valid_input [OF _ _ h, of WARNING 7] h show ?thesis by simp
qed

text \<open>
  Claim C5. For every input and every policy, after a call that returns, an entry of the
  indices that was the sentinel \<open>-1\<close> is still the sentinel; and, for
  \<open>len(Offsets) = T*B + 1\<close>, every entry outside all segments is what it was, whether the
  segments are read from the offsets given or from the offsets the call leaves. The
  sentinel is never counted as a violation: the step of the element loop that reads it
  returns the state it was given, so it neither throws under FATAL nor moves the counter
  nor logs under WARNING, whatever the state and the segment.
\<close>

theorem sentinel_transparency:
  assumes "bounds_check_indices_cpu rows xs os mode w = Inr s'"
  shows "length (indices s') = length xs \<and>
    (\<forall>i\<in>{0..<length xs}. xs ! i = - 1 \<longrightarrow> indices s' ! i = - 1) \<and>
    (length os = length rows * B + 1 \<longrightarrow>
      (\<forall>i\<in>{0..<length xs}.
         \<not> in_some_segment (length rows) B (offsets s') i \<or>
         \<not> in_some_segment (length rows) B os i \<longrightarrow>
         indices s' ! i = xs ! i)) \<and>
    (\<forall>s st l nr t b.
       0 \<le> st + int l \<and> st + int l < int (length (indices s)) \<and>
       indices s ! nat (st + int l) = - 1 \<longrightarrow>
       check_index mode nr t b st l s = Inr s)"
proof (intro conjI)
  from call_frame_general [OF assms]
  show "length (indices s') = length xs"
    and "\<forall>i\<in>{0..<length xs}. xs ! i = - 1 \<longrightarrow> indices s' ! i = - 1"
    by simp_all
  show "length os = length rows * B + 1 \<longrightarrow>
      (\<forall>i\<in>{0..<length xs}.
         \<not> in_some_segment (length rows) B (offsets s') i \<or>
         \<not> in_some_segment (length rows) B os i \<longrightarrow>
         indices s' ! i = xs ! i)"
    using call_frame_shape [OF _ assms, of B] by auto
  show "\<forall>s st l nr t b.
       0 \<le> st + int l \<and> st + int l < int (length (indices s)) \<and>
       indices s ! nat (st + int l) = - 1 \<longrightarrow>
       check_index mode nr t b st l s = Inr s"
    using check_index_sentinel by blast
qed

theorem sentinel_transparency_witness:
  "bounds_check_indices_cpu [3] [1, 5, - 1, 2, 9] [0, 2, 4] WARNING 0 =
     Inr \<lparr>offsets = [0, 2, 4], indices = [1, 0, - 1, 2, 9], warning = 1,
          logged = [IndexMessage 0 0 1 5 3]\<rparr> \<and>
   [1, 0, - 1, 2, 9] ! 2 = (- 1 :: int) \<and>
   \<not> in_some_segment 1 2 [0, 2, 4] 4 \<and> [1, 0, - 1, 2, 9 :: int] ! 4 = 9"
proof -
  have c: "bounds_check_indices_cpu [3] [1, 5, - 1, 2, 9] [0, 2, 4] WARNING 0 =
     Inr \<lparr>offsets = [0, 2, 4], indices = [1, 0, - 1, 2, 9], warning = 1,
          logged = [IndexMessage 0 0 1 5 3]\<rparr>"
    by code_simp
  have n: "\<not> in_some_segment 1 2 [0, 2, 4] 4"
    by (simp add: in_some_segment_def numeral_2_eq_2 atLeast0_lessThan_Suc)
  from sentinel_transparency [OF c, of 2] c n show ?thesis by simp
qed

text \<open>
  Claim C6. On the same input, a sequential call with the policy WARNING and one with the
  policy IGNORE end alike: either both fail, and in the same way, or both return, and with
  the same offsets and the same indices. With at least one table they return: clamping
  every segment, as IGNORE does, writes what clamping only the segments out of range
  writes. IGNORE leaves the counter alone and logs nothing; the counter and the log are
  all the two outcomes can differ in.
\<close>

theorem warning_ignore_same_repair:
  "map_sum id (\<lambda>s. (offsets s, indices s)) (bounds_check_indices_cpu rows xs os WARNING w) =
   map_sum id (\<lambda>s. (offsets s, indices s)) (bounds_check_indices_cpu rows xs os IGNORE w') \<and>
   (rows \<noteq> [] \<longrightarrow>
     (\<exists>sw si. bounds_check_indices_cpu rows xs os WARNING w = Inr sw \<and>
           bounds_check_indices_cpu rows xs os IGNORE w' = Inr si \<and>
           offsets sw = offsets si \<and> indices sw = indices si \<and>
           warning si = w' \<and> logged si = []))"
proof (cases "rows = []")
  case True
  then show ?thesis by (simp add: bounds_check_indices_cpu_def)
next
  case r: False
  have "\<exists>sw si. bounds_check_indices_cpu rows xs os WARNING w = Inr sw \<and>
           bounds_check_indices_cpu rows xs os IGNORE w' = Inr si \<and>
           offsets sw = offsets si \<and> indices sw = indices si \<and>
           warning si = w' \<and> logged si = []"
  proof (cases "cpp_div (int (length os) - 1) (int (length rows)) < 0")
    case True
    from call_negative [OF r True, of xs WARNING w] call_negative [OF r True, of xs IGNORE w']
    show ?thesis by simp
  next
    case nn: False
    define Bn where "Bn = nat (cpp_div (int (length os) - 1) (int (length rows)))"
    note d = call_derived [OF r nn Bn_def]
    from run_nonfatal(1) [OF d(1), of xs] d(2) [of xs WARNING w]
    obtain sw where sw: "bounds_check_indices_cpu rows xs os WARNING w = Inr sw"
      "offsets sw = offsets_after (int (length xs)) os (length rows * Bn)"
      "indices sw = indices_after rows Bn os xs (length rows * Bn)"
      by auto
    from run_nonfatal(2) [OF d(1), of xs w'] d(2) [of xs IGNORE w']
    have si: "bounds_check_indices_cpu rows xs os IGNORE w' =
       Inr \<lparr>offsets = offsets_after (int (length xs)) os (length rows * Bn),
            indices = indices_after rows Bn os xs (length rows * Bn),
            warning = w', logged = []\<rparr>"
      by simp
    from sw si show ?thesis by simp
  qed
  then show ?thesis by auto
qed

theorem warning_ignore_same_repair_witness:
  "\<exists>sw si. bounds_check_indices_cpu [3] [1, 5, - 1, 2, 9] [0, 7, 5] WARNING 0 = Inr sw \<and>
           bounds_check_indices_cpu [3] [1, 5, - 1, 2, 9] [0, 7, 5] IGNORE 0 = Inr si \<and>
           offsets sw = offsets si \<and> indices sw = indices si \<and>
           warning si = 0 \<and> logged si = []"
  using warning_ignore_same_repair [of "[3]" "[1, 5, - 1, 2, 9]" "[0, 7, 5]" 0 0] by simp

text \<open>
  Claim C7. With \<open>RowCounts = [3]\<close>, \<open>Offsets = [0, 2, 5]\<close> (one table, two batch elements),
  \<open>Indices = [1, 5, -1, 2, 9]\<close> and the policy IGNORE, the call returns, the offsets are
  still \<open>[0, 2, 5]\<close> and the indices are \<open>[1, 0, -1, 2, 0]\<close>: the ids 5 and 9 are
  overwritten with 0, the ids 1 and 2 and the sentinel are as they were. Nothing is logged
  and the counter is not touched.
\<close>

theorem scenario_ignore:
  "bounds_check_indices_cpu [3] [1, 5, - 1, 2, 9] [0, 2, 5] IGNORE w =
     Inr \<lparr>offsets = [0, 2, 5], indices = [1, 0, - 1, 2, 0], warning = w, logged = []\<rparr>"
  by code_simp

text \<open>
  Claim C8. With the same row counts and indices, \<open>Offsets = [0, 7, 5]\<close> and the policy
  WARNING, the call returns, the offsets are repaired to \<open>[0, 5, 5]\<close>, the counter, whatever
  it held before, is at least 1 (it is 3: one segment and two ids), and exactly one
  diagnostic was emitted, the one for the segment of batch 0 and table 0 that ran from 0
  to 7 over 5 indices.
\<close>

theorem scenario_warning:
  "\<exists>s'. bounds_check_indices_cpu [3] [1, 5, - 1, 2, 9] [0, 7, 5] WARNING w = Inr s' \<and>
        offsets s' = [0, 5, 5] \<and> 1 \<le> warning s' \<and> warning s' = 3 \<and>
        length (logged s') = 1 \<and> logged s' = [SegmentMessage 0 0 0 7 5] \<and>
        indices s' = [1, 0, - 1, 2, 0]"
proof -
  have "bounds_check_indices_cpu [3] [1, 5, - 1, 2, 9] [0, 7, 5] WARNING w =
     Inr \<lparr>offsets = [0, 5, 5], indices = [1, 0, - 1, 2, 0], warning = 3,
          logged = [SegmentMessage 0 0 0 7 5]\<rparr>"
    by code_simp
  then show ?thesis by simp
qed

text \<open>
  Claim C9. For every input and every policy, no read or write of the routine leaves its
  tensor. Every access of the model goes through \<open>acc_read\<close> or \<open>acc_write\<close>, which end
  the call with \<open>OutOfBoundsAccess\<close> when the position is not in \<open>[0, len)\<close>; the call never
  ends so. Under WARNING and IGNORE the element loop runs over the clamped segment, under
  FATAL it runs once the three checks of the segment have passed; the positions
  \<open>t * B + b\<close> and \<open>t * B + b + 1\<close> stay within \<open>[0, T * B]\<close> because \<open>B\<close> is the quotient of
  \<open>len(Offsets) - 1\<close> by \<open>T\<close>. No assumption on the shapes is needed.
\<close>

theorem no_out_of_bounds_access:
  "bounds_check_indices_cpu rows xs os mode w \<noteq> Inl OutOfBoundsAccess"
proof (cases "rows = []")
  case True
  then show ?thesis by (simp add: bounds_check_indices_cpu_def)
next
  case False
  show ?thesis
  proof (cases "cpp_div (int (length os) - 1) (int (length rows)) < 0")
    case True
    from call_negative [OF False True] show ?thesis by simp
  next
    case nn: False
    define Bn where "Bn = nat (cpp_div (int (length os) - 1) (int (length rows)))"
    note d = call_derived [OF False nn Bn_def]
    show ?thesis
    proof (cases mode)
      case FATAL
      define s where "s = \<lparr>offsets = os, indices = xs, warning = w, logged = []\<rparr>"
      have "Bn = 0 \<or> length rows * Bn < length (offsets s)" using d(1) by (simp add: s_def)
      from run_fatal [OF this] d(2) [of xs mode w] FATAL show ?thesis by (simp add: s_def)
    next
      case WARNING
      from run_nonfatal(1) [OF d(1), of xs] d(2) [of xs mode w] WARNING show ?thesis by auto
    next
      case IGNORE
      from run_nonfatal(2) [OF d(1), of xs w] d(2) [of xs mode w] IGNORE show ?thesis by simp
    qed
  qed
qed

theorem no_out_of_bounds_access_witness:
  "bounds_check_indices_cpu [3] [1, 5, - 1, 2, 9] [0, 7, 5] FATAL 0 \<noteq> Inl OutOfBoundsAccess \<and>
   bounds_check_indices_cpu [3] [1, 5, - 1, 2, 9] [0, 7, 5] FATAL 0 = Inl TorchCheckFailed"
proof -
  have "bounds_check_indices_cpu [3] [1, 5, - 1, 2, 9] [0, 7, 5] FATAL 0 = Inl TorchCheckFailed"
    by code_simp
  with no_out_of_bounds_access [of "[3]" "[1, 5, - 1, 2, 9]" "[0, 7, 5]" FATAL 0]
  show ?thesis by simp
qed




end
